theory Spec2Isabelle
  imports Main "HOL-Library.AList"
begin

section \<open>Shared data\<close>

text \<open>
  Exceptions are values. Every constructor stands for a class derived from Python's
  \<open>Exception\<close>, which is what both \<open>except Exception\<close> handlers of the program catch.
\<close>

datatype exn = ValueError | AttributeError | DoesNotExist | OtherError string

text \<open>
  A decoded JSON value: what \<open>json.loads\<close> returns for a log line and what the broker
  hands to \<open>callback\<close> as the message body.
\<close>

datatype json =
    JNull
  | JBool bool
  | JNumber int
  | JString string
  | JArray "json list"
  | JObject "(string \<times> json) list"

text \<open>
  The owner of an archive, as the join \<open>archive.user\<close> reads it. Model instances are
  compared and hashed by primary key, so registry keys are \<open>uid\<close>s. The program only
  tests the status against \<open>User.STATUS_DISABLED\<close>.
\<close>

datatype user_status = STATUS_ENABLED | STATUS_DISABLED

record user =
  uid :: nat
  status :: user_status

text \<open>
  A distilled artifact as returned by an aggregator's \<open>generate()\<close>: opaque to the
  worker, recorded here as the records it was distilled from.
\<close>

datatype snapshot = Snapshot "json list"

text \<open>The Archive row, with the columns the two programs read or write.\<close>

record archive =
  pk :: nat
  user :: user
  query :: string
  started :: int
  stopped :: "int option"
  is_running :: bool
  allow_consumption :: bool
  allow_search :: bool
  total_a :: int
  size_a :: nat
  cloud_snapshot :: "snapshot option"
  cloud_generated :: "int option"
  statistics_snapshot :: "snapshot option"
  statistics_generated :: "int option"
  images_snapshot :: "snapshot option"
  images_generated :: "int option"

section \<open>The collector command (commands/collector.py)\<close>

text \<open>
  One upstream connection (\<open>tweepy.Stream\<close> with its \<open>StreamArchiver\<close> listener):
  \<open>auth_user\<close> is the owner whose credentials opened it, \<open>channels\<close> the archives
  its listener is bound to, \<open>track\<close> the terms given to \<open>filter\<close>.
\<close>

record stream =
  auth_user :: nat
  running :: bool
  log_open :: bool
  channels :: "archive list"
  track :: "string list"

text \<open>
  The command object together with the world it acts on. \<open>tracking\<close>, \<open>streams\<close>
  (a dictionary keyed by owner, in insertion order) and \<open>first_pass_completed\<close> are
  the attributes of \<open>self\<close>; \<open>db\<close> is the Archive table; \<open>released\<close> holds the Stream
  objects the registry no longer references; \<open>alerts\<close> what \<open>_alert\<close> reported;
  \<open>slept\<close> the total time spent in \<open>time.sleep\<close>. Writes to stdout and the
  verbosity level that only gates them are left out.
\<close>

record command =
  tracking :: "archive list"
  streams :: "(nat \<times> stream) list"
  first_pass_completed :: bool
  db :: "archive list"
  released :: "stream list"
  alerts :: "exn list"
  slept :: nat

text \<open>
  What the outside decides when a connection is opened: whether \<open>_authenticate\<close>
  raises for an owner (no token stored) and whether \<open>Stream.filter\<close> raises.
\<close>

record upstream =
  authenticate_raises :: "nat \<Rightarrow> exn option"
  filter_raises :: "nat \<Rightarrow> exn option"

definition LOOP_TIME :: nat where
  "LOOP_TIME = 1"

definition CHILL_TIME :: nat where
  "CHILL_TIME = 30"

definition LISTENER_WAIT_TIME :: nat where
  "LISTENER_WAIT_TIME = 5"

text \<open>\<open>Command.__init__\<close>, over a given Archive table.\<close>

definition init :: "archive list \<Rightarrow> command" where
  "init rows =
     \<lparr>tracking = [], streams = [], first_pass_completed = False,
      db = rows, released = [], alerts = [], slept = 0\<rparr>"

definition sleep :: "nat \<Rightarrow> command \<Rightarrow> command" where
  "sleep n s = s\<lparr>slept := slept s + n\<rparr>"

text \<open>\<open>archive in self.tracking\<close>: model instances are equal when their keys are.\<close>

definition tracked :: "archive \<Rightarrow> command \<Rightarrow> bool" where
  "tracked a s = (pk a \<in> set (map pk (tracking s)))"

text \<open>\<open>list.remove\<close>: drops the first element equal to the argument.\<close>

fun remove_archive :: "nat \<Rightarrow> archive list \<Rightarrow> archive list" where
  "remove_archive p [] = []"
| "remove_archive p (x # xs) = (if pk x = p then xs else x # remove_archive p xs)"

text \<open>\<open>archive.save(update_fields=("is_running",))\<close>: an update of the row with that key.\<close>

definition save_is_running :: "nat \<Rightarrow> bool \<Rightarrow> archive list \<Rightarrow> archive list" where
  "save_is_running p v rows = map (\<lambda>r. if pk r = p then r\<lparr>is_running := v\<rparr> else r) rows"

definition start_tracking :: "archive \<Rightarrow> command \<Rightarrow> command" where
  "start_tracking a s =
     (let s1 = (if \<not> tracked a s
                then s\<lparr>tracking := tracking s @ [a\<lparr>is_running := True\<rparr>]\<rparr>
                else s)
      in s1\<lparr>db := save_is_running (pk a) True (db s1)\<rparr>)"

definition stop_tracking :: "archive \<Rightarrow> command \<Rightarrow> command" where
  "stop_tracking a s =
     (let s1 = (if tracked a s
                then s\<lparr>tracking := remove_archive (pk a) (tracking s)\<rparr>
                else s)
      in s1\<lparr>db := save_is_running (pk a) False (db s1)\<rparr>)"

subsection \<open>Choosing what to start\<close>

text \<open>
  \<open>_handle_restarts\<close>: the keys bound to every registered stream that is not running;
  when there are none the argument is returned, otherwise the command sleeps
  \<open>CHILL_TIME\<close> and returns a fresh query by key.
\<close>

definition to_restart :: "command \<Rightarrow> nat list" where
  "to_restart s =
     concat (map (\<lambda>(u, st). if \<not> running st then map pk (channels st) else []) (streams s))"

definition handle_restarts :: "archive list \<Rightarrow> command \<Rightarrow> archive list \<times> command" where
  "handle_restarts to_start s =
     (if to_restart s = [] then (to_start, s)
      else (filter (\<lambda>a. pk a \<in> set (map pk to_start @ to_restart s)) (db s),
            sleep CHILL_TIME s))"

definition window_open :: "int \<Rightarrow> archive \<Rightarrow> bool" where
  "window_open now a = (case stopped a of None \<Rightarrow> True | Some t \<Rightarrow> now < t)"

definition first_pass_filter :: "archive list \<Rightarrow> command \<Rightarrow> archive list \<times> command" where
  "first_pass_filter r s =
     (if first_pass_completed s
      then (filter is_running r, s\<lparr>first_pass_completed := True\<rparr>)
      else (r, s))"

definition get_archives_to_start :: "int \<Rightarrow> command \<Rightarrow> archive list \<times> command" where
  "get_archives_to_start now s =
     (let r = filter (\<lambda>a. started a \<le> now \<and> \<not> tracked a s) (db s);
          (r1, s1) = first_pass_filter r s;
          (r2, s2) = handle_restarts (filter (window_open now) r1) s1
      in (filter (\<lambda>a. status (user a) \<noteq> STATUS_DISABLED) r2, s2))"

subsection \<open>Reconciliation\<close>

text \<open>The three statements of the first loop of \<open>adjust_connections\<close>.\<close>

definition disconnect :: "nat \<Rightarrow> command \<Rightarrow> command" where
  "disconnect u s =
     s\<lparr>streams := AList.map_entry u (\<lambda>st. st\<lparr>running := False\<rparr>) (streams s)\<rparr>"

definition close_log :: "nat \<Rightarrow> command \<Rightarrow> command" where
  "close_log u s =
     s\<lparr>streams := AList.map_entry u (\<lambda>st. st\<lparr>log_open := False\<rparr>) (streams s)\<rparr>"

text \<open>The object the registry holds for an owner, which loses that reference.\<close>

definition unreferenced :: "nat \<Rightarrow> command \<Rightarrow> stream list" where
  "unreferenced u s = (case map_of (streams s) u of None \<Rightarrow> [] | Some st \<Rightarrow> [st])"

definition del_stream :: "nat \<Rightarrow> command \<Rightarrow> command" where
  "del_stream u s =
     s\<lparr>streams := AList.delete u (streams s),
       released := released s @ unreferenced u s\<rparr>"

definition kill_stream :: "nat \<Rightarrow> command \<Rightarrow> command" where
  "kill_stream u s =
     (if u \<in> set (map fst (streams s)) then del_stream u (close_log u (disconnect u s)) else s)"

text \<open>The regrouping loop: one group per touched owner, in order of first appearance.\<close>

definition group_step :: "nat list \<Rightarrow> archive \<Rightarrow> (nat \<times> archive list) list \<Rightarrow> (nat \<times> archive list) list" where
  "group_step users_adjusting a g =
     (if uid (user a) \<in> set users_adjusting
      then AList.update (uid (user a))
             ((case map_of g (uid (user a)) of None \<Rightarrow> [] | Some as \<Rightarrow> as) @ [a]) g
      else g)"

definition regroup :: "nat list \<Rightarrow> archive list \<Rightarrow> (nat \<times> archive list) list" where
  "regroup users_adjusting tr = fold (group_step users_adjusting) tr []"

text \<open>
  \<open>self.streams[user] = tweepy.Stream(...)\<close>: the new object is not connected yet;
  an object the entry referenced before is no longer referenced by the registry.
\<close>

definition new_stream :: "nat \<Rightarrow> archive list \<Rightarrow> stream" where
  "new_stream u as =
     \<lparr>auth_user = u, running = False, log_open = True, channels = as, track = []\<rparr>"

definition assign_stream :: "nat \<Rightarrow> stream \<Rightarrow> command \<Rightarrow> command" where
  "assign_stream u st s =
     s\<lparr>streams := AList.update u st (streams s),
       released := released s @ unreferenced u s\<rparr>"

text \<open>\<open>self.streams[user].filter(track=set(...), async=True)\<close> when it does not raise.\<close>

definition filter_stream :: "nat \<Rightarrow> string list \<Rightarrow> command \<Rightarrow> command" where
  "filter_stream u terms s =
     s\<lparr>streams := AList.map_entry u (\<lambda>st. st\<lparr>running := True, track := terms\<rparr>) (streams s)\<rparr>"

definition alert :: "exn \<Rightarrow> command \<Rightarrow> command" where
  "alert e s = s\<lparr>alerts := alerts s @ [e]\<rparr>"

text \<open>The body of the last loop: the \<open>try\<close> block, its handler, and the wait.\<close>

definition connect :: "upstream \<Rightarrow> nat \<times> archive list \<Rightarrow> command \<Rightarrow> command" where
  "connect up g s =
     (case g of (u, as) \<Rightarrow>
        sleep LISTENER_WAIT_TIME
          (case authenticate_raises up u of
             Some e \<Rightarrow> alert e s
           | None \<Rightarrow>
               (let s1 = assign_stream u (new_stream u as) s
                in case filter_raises up u of
                     Some e \<Rightarrow> alert e s1
                   | None \<Rightarrow> filter_stream u (remdups (map query as)) s1)))"

definition adjust_connections :: "upstream \<Rightarrow> archive list \<Rightarrow> archive list \<Rightarrow> command \<Rightarrow> command" where
  "adjust_connections up to_start to_stop s =
     (let users_adjusting = map (\<lambda>a. uid (user a)) (to_start @ to_stop);
          s1 = fold kill_stream users_adjusting s;
          s2 = fold stop_tracking to_stop s1;
          s3 = fold start_tracking to_start s2;
          groups = regroup users_adjusting (tracking s3)
      in fold (connect up) groups s3)"

subsection \<open>One pass of the loop\<close>

text \<open>Truth value of a QuerySet in a condition: it is true when it has a row.\<close>

definition truthy :: "archive list \<Rightarrow> bool" where
  "truthy rows = (rows \<noteq> [])"

definition expired :: "int \<Rightarrow> archive \<Rightarrow> bool" where
  "expired now a = (case stopped a of None \<Rightarrow> False | Some t \<Rightarrow> t \<le> now)"

text \<open>
  The body of \<open>while True\<close> in \<open>loop\<close>, at clock reading \<open>now\<close>. The verbosity file
  check only changes what is printed.
\<close>

definition loop_body :: "upstream \<Rightarrow> int \<Rightarrow> command \<Rightarrow> command" where
  "loop_body up now s =
     (case get_archives_to_start now s of (to_start, s1) \<Rightarrow>
        (let to_stop = filter (\<lambda>a. expired now a \<and> is_running a) (db s1);
             s2 = (if truthy to_start \<or> truthy to_stop
                   then adjust_connections up to_start to_stop s1
                   else s1)
         in sleep LOOP_TIME s2))"

text \<open>
  An event of the environment between two passes: the connection opened for an owner
  dies, and its stream reports not running from then on.
\<close>

definition connection_lost :: "nat \<Rightarrow> command \<Rightarrow> command" where
  "connection_lost u s =
     s\<lparr>streams := AList.map_entry u (\<lambda>st. st\<lparr>running := False\<rparr>) (streams s)\<rparr>"

subsection \<open>The points of a reconciliation\<close>

text \<open>
  The states \<open>adjust_connections\<close> passes through, one after each statement that
  changes the command or a stream, in order. \<open>points pts f xs s\<close> lists them for a
  loop over \<open>xs\<close> whose body \<open>f\<close> passes through \<open>pts\<close>.
\<close>

fun points :: "('x \<Rightarrow> 's \<Rightarrow> 's list) \<Rightarrow> ('x \<Rightarrow> 's \<Rightarrow> 's) \<Rightarrow> 'x list \<Rightarrow> 's \<Rightarrow> 's list" where
  "points pts f [] s = []"
| "points pts f (x # xs) s = pts x s @ points pts f xs (f x s)"

definition kill_points :: "nat \<Rightarrow> command \<Rightarrow> command list" where
  "kill_points u s =
     (if u \<in> set (map fst (streams s))
      then [disconnect u s, close_log u (disconnect u s), del_stream u (close_log u (disconnect u s))]
      else [])"

definition connect_points :: "upstream \<Rightarrow> nat \<times> archive list \<Rightarrow> command \<Rightarrow> command list" where
  "connect_points up g s =
     (case g of (u, as) \<Rightarrow>
        (case authenticate_raises up u of
           Some e \<Rightarrow> [alert e s, sleep LISTENER_WAIT_TIME (alert e s)]
         | None \<Rightarrow>
             (let s1 = assign_stream u (new_stream u as) s
              in case filter_raises up u of
                   Some e \<Rightarrow> [s1, alert e s1, sleep LISTENER_WAIT_TIME (alert e s1)]
                 | None \<Rightarrow>
                     [s1, filter_stream u (remdups (map query as)) s1,
                      sleep LISTENER_WAIT_TIME (filter_stream u (remdups (map query as)) s1)])))"

definition adjust_connections_points ::
  "upstream \<Rightarrow> archive list \<Rightarrow> archive list \<Rightarrow> command \<Rightarrow> command list" where
  "adjust_connections_points up to_start to_stop s =
     (let users_adjusting = map (\<lambda>a. uid (user a)) (to_start @ to_stop);
          s1 = fold kill_stream users_adjusting s;
          s2 = fold stop_tracking to_stop s1;
          s3 = fold start_tracking to_start s2;
          groups = regroup users_adjusting (tracking s3)
      in s # points kill_points kill_stream users_adjusting s
           @ points (\<lambda>a t. [stop_tracking a t]) stop_tracking to_stop s1
           @ points (\<lambda>a t. [start_tracking a t]) start_tracking to_start s2
           @ points (connect_points up) (connect up) groups s3)"

text \<open>
  The live channels of an owner: the streams opened with the owner's credentials that
  are running, whether the registry still references them or not.
\<close>

definition live_channels :: "command \<Rightarrow> nat \<Rightarrow> stream list" where
  "live_channels s u =
     filter (\<lambda>st. auth_user st = u \<and> running st) (map snd (streams s) @ released s)"

text \<open>
  The registry is in order when its keys are distinct, every stream is filed under the
  owner whose credentials opened it, and every stream it has let go of is disconnected
  with its log closed.
\<close>

definition registry_ok :: "command \<Rightarrow> bool" where
  "registry_ok s =
     (distinct (map fst (streams s))
      \<and> list_all (\<lambda>(k, st). auth_user st = k) (streams s)
      \<and> list_all (\<lambda>st. \<not> running st \<and> \<not> log_open st) (released s))"

text \<open>
  What the last loop of \<open>adjust_connections\<close> relies on when it reaches a group: the
  registry is in order, the owners still to be connected are distinct, and none of them
  has an entry.
\<close>

definition connectable :: "(nat \<times> archive list) list \<Rightarrow> command \<Rightarrow> bool" where
  "connectable gs s =
     (registry_ok s \<and> distinct (map fst gs) \<and> fst ` set gs \<inter> fst ` set (streams s) = {})"

text \<open>
  The command's books agree with the table: keys are distinct in the table and in the
  tracked list, every row of a tracked archive is flagged running and has the tracked
  archive's owner, and every registered stream is bound to tracked archives of the owner
  it is filed under.
\<close>

definition consistent :: "command \<Rightarrow> bool" where
  "consistent s =
     (distinct (map pk (db s)) \<and> distinct (map pk (tracking s))
      \<and> list_all (\<lambda>t. list_all (\<lambda>r. pk r = pk t \<longrightarrow> is_running r \<and> uid (user r) = uid (user t)) (db s))
           (tracking s)
      \<and> list_all (\<lambda>(k, st). list_all (\<lambda>c. c \<in> set (tracking s) \<and> uid (user c) = k) (channels st))
           (streams s))"

text \<open>
  What claim C4 asks of an archive key after a tick: its rows are flagged not running,
  it is not tracked, and no registered stream is bound to it.
\<close>

definition stopped_after :: "nat \<Rightarrow> command \<Rightarrow> bool" where
  "stopped_after p s =
     (list_all (\<lambda>r. pk r = p \<longrightarrow> \<not> is_running r) (db s)
      \<and> p \<notin> pk ` set (tracking s)
      \<and> list_all (\<lambda>(k, st). p \<notin> pk ` set (channels st)) (streams s))"

section \<open>The archive consumer (consumers.py)\<close>

datatype parser_id = Raw | Cloud | Images | Map | Search | Statistics

text \<open>
  Modelled from the spec: the parser classes are not among the sources. An aggregator
  is an accumulator with \<open>collect(record)\<close> and \<open>generate()\<close>; \<open>collected\<close> lists
  the records \<open>collect\<close> has accepted, oldest first.
\<close>

record parser =
  collected :: "json list"

text \<open>
  Modelled from the spec: the statistics aggregator additionally exposes the running
  count \<open>aggregate["total"]\<close> of the records it has collected.
\<close>

record statistics_parser = parser +
  aggregate_total :: int

text \<open>
  What the collaborators decide: \<open>loads\<close> is \<open>json.loads\<close> (\<open>None\<close> is its
  \<open>ValueError\<close>), \<open>collect_raises\<close> and \<open>generate_raises\<close> say when an aggregator's
  method raises, \<open>calculate_size\<close> is the archive's own size computation.
\<close>

record services =
  loads :: "string \<Rightarrow> json option"
  collect_raises :: "parser_id \<Rightarrow> json \<Rightarrow> exn option"
  generate_raises :: "parser_id \<Rightarrow> exn option"
  calculate_size :: "archive \<Rightarrow> nat"

text \<open>
  The consumer after \<open>start()\<close>: the parsers exist and \<open>last_distilled\<close> is set.
  \<open>reported\<close> lists what \<open>_alert\<close> was given, \<open>waited\<close> the time spent in
  \<open>time.sleep\<close>. The dictionary \<open>self.aggregates\<close> is written once and never read,
  and log messages are left out.
\<close>

record consumer =
  archive :: archive
  raw :: parser
  cloud :: parser
  images :: parser
  map_p :: parser
  search :: parser
  statistics :: statistics_parser
  is_stopped :: bool
  should_stop :: bool
  last_distilled :: int
  reported :: "(string \<times> exn) list"
  waited :: nat

text \<open>The broker's message: its acknowledgement handle.\<close>

record message =
  acked :: bool

definition DISTILLATION_WINDOW :: int where
  "DISTILLATION_WINDOW = 60 * 5"

text \<open>
  Modelled from the spec: a parser as its constructor leaves it, with nothing
  collected and a count of zero.
\<close>

definition new_parser :: parser where
  "new_parser = \<lparr>collected = []\<rparr>"

definition new_statistics_parser :: statistics_parser where
  "new_statistics_parser = \<lparr>collected = [], aggregate_total = 0\<rparr>"

text \<open>\<open>__init__\<close> followed by \<open>start()\<close> at clock reading \<open>now\<close>.\<close>

definition start :: "archive \<Rightarrow> int \<Rightarrow> consumer" where
  "start a now =
     \<lparr>archive = a, raw = new_parser, cloud = new_parser, images = new_parser,
      map_p = new_parser, search = new_parser, statistics = new_statistics_parser,
      is_stopped = False, should_stop = False, last_distilled = now,
      reported = [], waited = 0\<rparr>"

text \<open>
  Modelled from the spec: \<open>collect(record)\<close> feeds one record and returns nothing,
  unless it raises; the statistics aggregator counts the record as well.
\<close>

definition collect :: "services \<Rightarrow> parser_id \<Rightarrow> json \<Rightarrow> parser \<Rightarrow> exn + parser" where
  "collect sv p t a =
     (case collect_raises sv p t of
        Some e \<Rightarrow> Inl e
      | None \<Rightarrow> Inr (a\<lparr>collected := collected a @ [t]\<rparr>))"

definition collect_statistics :: "services \<Rightarrow> json \<Rightarrow> statistics_parser \<Rightarrow> exn + statistics_parser" where
  "collect_statistics sv t a =
     (case collect_raises sv Statistics t of
        Some e \<Rightarrow> Inl e
      | None \<Rightarrow> Inr (a\<lparr>collected := collected a @ [t], aggregate_total := aggregate_total a + 1\<rparr>))"

text \<open>
  Modelled from the spec: \<open>generate()\<close> returns a snapshot of what was collected and
  leaves the aggregator as it is, unless it raises.
\<close>

definition generate :: "services \<Rightarrow> parser_id \<Rightarrow> json list \<Rightarrow> exn + snapshot" where
  "generate sv p recs =
     (case generate_raises sv p of Some e \<Rightarrow> Inl e | None \<Rightarrow> Inr (Snapshot recs))"

subsection \<open>Statements that may raise\<close>

text \<open>
  A statement maps a state to the state it leaves and, when it raised, the exception.
  \<open>seq\<close> is sequencing: the second statement runs only when the first did not raise.
\<close>

definition seq :: "('s \<Rightarrow> 's \<times> exn option) \<Rightarrow> ('s \<Rightarrow> 's \<times> exn option) \<Rightarrow> 's \<Rightarrow> 's \<times> exn option" where
  "seq f g s = (case f s of (s1, Some e) \<Rightarrow> (s1, Some e) | (s1, None) \<Rightarrow> g s1)"

definition collect_raw :: "services \<Rightarrow> json \<Rightarrow> consumer \<Rightarrow> consumer \<times> exn option" where
  "collect_raw sv t w =
     (case collect sv Raw t (raw w) of Inl e \<Rightarrow> (w, Some e) | Inr a \<Rightarrow> (w\<lparr>raw := a\<rparr>, None))"

definition collect_cloud :: "services \<Rightarrow> json \<Rightarrow> consumer \<Rightarrow> consumer \<times> exn option" where
  "collect_cloud sv t w =
     (case collect sv Cloud t (cloud w) of Inl e \<Rightarrow> (w, Some e) | Inr a \<Rightarrow> (w\<lparr>cloud := a\<rparr>, None))"

definition collect_images :: "services \<Rightarrow> json \<Rightarrow> consumer \<Rightarrow> consumer \<times> exn option" where
  "collect_images sv t w =
     (case collect sv Images t (images w) of Inl e \<Rightarrow> (w, Some e) | Inr a \<Rightarrow> (w\<lparr>images := a\<rparr>, None))"

definition collect_map :: "services \<Rightarrow> json \<Rightarrow> consumer \<Rightarrow> consumer \<times> exn option" where
  "collect_map sv t w =
     (case collect sv Map t (map_p w) of Inl e \<Rightarrow> (w, Some e) | Inr a \<Rightarrow> (w\<lparr>map_p := a\<rparr>, None))"

definition collect_stats :: "services \<Rightarrow> json \<Rightarrow> consumer \<Rightarrow> consumer \<times> exn option" where
  "collect_stats sv t w =
     (case collect_statistics sv t (statistics w) of
        Inl e \<Rightarrow> (w, Some e) | Inr a \<Rightarrow> (w\<lparr>statistics := a\<rparr>, None))"

definition collect_search :: "services \<Rightarrow> json \<Rightarrow> consumer \<Rightarrow> consumer \<times> exn option" where
  "collect_search sv t w =
     (if allow_search (archive w)
      then (case collect sv Search t (search w) of
              Inl e \<Rightarrow> (w, Some e) | Inr a \<Rightarrow> (w\<lparr>search := a\<rparr>, None))
      else (w, None))"

subsection \<open>Flush\<close>

definition set_archive :: "(archive \<Rightarrow> archive) \<Rightarrow> consumer \<Rightarrow> consumer" where
  "set_archive f w = w\<lparr>archive := f (archive w)\<rparr>"

definition generate_only :: "services \<Rightarrow> parser_id \<Rightarrow> (consumer \<Rightarrow> json list) \<Rightarrow> consumer \<Rightarrow> consumer \<times> exn option" where
  "generate_only sv p recs w =
     (case generate sv p (recs w) of Inl e \<Rightarrow> (w, Some e) | Inr x \<Rightarrow> (w, None))"

definition generate_into ::
  "services \<Rightarrow> parser_id \<Rightarrow> (consumer \<Rightarrow> json list) \<Rightarrow> (snapshot \<Rightarrow> archive \<Rightarrow> archive)
     \<Rightarrow> consumer \<Rightarrow> consumer \<times> exn option" where
  "generate_into sv p recs store w =
     (case generate sv p (recs w) of
        Inl e \<Rightarrow> (w, Some e)
      | Inr x \<Rightarrow> (set_archive (store x) w, None))"

text \<open>
  \<open>_write_distillations\<close> at clock reading \<open>now\<close>, statement by statement. The
  archive object is the state; the final \<open>archive.save\<close> that persists it is left out.
\<close>

definition write_distillations :: "services \<Rightarrow> int \<Rightarrow> consumer \<Rightarrow> consumer \<times> exn option" where
  "write_distillations sv now =
     seq (\<lambda>w. (w\<lparr>last_distilled := now\<rparr>, None))
    (seq (generate_only sv Raw (\<lambda>w. collected (raw w)))
    (seq (generate_only sv Map (\<lambda>w. collected (map_p w)))
    (seq (generate_into sv Cloud (\<lambda>w. collected (cloud w))
            (\<lambda>x a. a\<lparr>cloud_snapshot := Some x\<rparr>))
    (seq (\<lambda>w. (set_archive (\<lambda>a. a\<lparr>cloud_generated := Some now\<rparr>) w, None))
    (seq (generate_into sv Statistics (\<lambda>w. collected (statistics w))
            (\<lambda>x a. a\<lparr>statistics_snapshot := Some x\<rparr>))
    (seq (\<lambda>w. (set_archive (\<lambda>a. a\<lparr>statistics_generated := Some now\<rparr>) w, None))
    (seq (generate_into sv Images (\<lambda>w. collected (images w))
            (\<lambda>x a. a\<lparr>images_snapshot := Some x\<rparr>))
    (seq (\<lambda>w. (set_archive (\<lambda>a. a\<lparr>images_generated := Some now\<rparr>) w, None))
    (seq (\<lambda>w. (set_archive (\<lambda>a. a\<lparr>total_a := aggregate_total (statistics w)\<rparr>) w, None))
         (\<lambda>w. (set_archive (\<lambda>a. a\<lparr>size_a := calculate_size sv a\<rparr>) w, None)))))))))))"

subsection \<open>Steady state\<close>

text \<open>
  A statement on the consumer alone, run in a state that also holds the message.
\<close>

definition on_consumer ::
  "(consumer \<Rightarrow> consumer \<times> exn option) \<Rightarrow> consumer \<times> message \<Rightarrow> (consumer \<times> message) \<times> exn option" where
  "on_consumer f wm = (case f (fst wm) of (w1, r) \<Rightarrow> ((w1, snd wm), r))"

definition ack :: "consumer \<times> message \<Rightarrow> (consumer \<times> message) \<times> exn option" where
  "ack wm = ((fst wm, (snd wm)\<lparr>acked := True\<rparr>), None)"

text \<open>
  \<open>_process_message\<close>. \<open>now\<close> is the clock reading taken after the acknowledgement,
  \<open>flush_now\<close> the one \<open>_write_distillations\<close> takes when it runs.
\<close>

definition process_message ::
  "services \<Rightarrow> int \<Rightarrow> int \<Rightarrow> json \<Rightarrow> consumer \<times> message \<Rightarrow> (consumer \<times> message) \<times> exn option" where
  "process_message sv now flush_now tweet =
     seq (on_consumer (\<lambda>w. (set_archive (\<lambda>a. a\<lparr>total_a := total_a a + 1\<rparr>) w, None)))
    (seq (on_consumer (collect_raw sv tweet))
    (seq (on_consumer (collect_cloud sv tweet))
    (seq (on_consumer (collect_images sv tweet))
    (seq (on_consumer (collect_stats sv tweet))
    (seq (on_consumer (collect_map sv tweet))
    (seq (on_consumer (collect_search sv tweet))
    (seq ack
         (on_consumer (\<lambda>w. if now - last_distilled w > DISTILLATION_WINDOW
                            then write_distillations sv flush_now w
                            else (w, None))))))))))"

text \<open>
  \<open>callback\<close>: the handler reports, sleeps one second and sets \<open>should_stop\<close>; the
  second component is what leaves the function as an exception.
\<close>

definition callback ::
  "services \<Rightarrow> int \<Rightarrow> int \<Rightarrow> json \<Rightarrow> consumer \<times> message \<Rightarrow> (consumer \<times> message) \<times> exn option" where
  "callback sv now flush_now tweet wm =
     (case process_message sv now flush_now tweet wm of
        (wm1, None) \<Rightarrow> (wm1, None)
      | ((w1, m1), Some e) \<Rightarrow>
          ((w1\<lparr>reported := reported w1 @ [(''An error occurred whilst processing a message'', e)],
               waited := waited w1 + 1,
               should_stop := True\<rparr>, m1), None))"

text \<open>
  Processing a sequence of deliveries one at a time through \<open>_process_message\<close>, each
  with its clock readings and a message not yet acknowledged, up to the first exception.
\<close>

fun process_all :: "services \<Rightarrow> ((int \<times> int) \<times> json) list \<Rightarrow> consumer \<Rightarrow> consumer \<times> exn option" where
  "process_all sv [] w = (w, None)"
| "process_all sv (d # ds) w =
     (case process_message sv (fst (fst d)) (snd (fst d)) (snd d) (w, \<lparr>acked = False\<rparr>) of
        ((w1, m1), Some e) \<Rightarrow> (w1, Some e)
      | ((w1, m1), None) \<Rightarrow> process_all sv ds w1)"

subsection \<open>Cold start\<close>

text \<open>
  \<open>_parse_line\<close>. The handler catches the \<open>ValueError\<close> of \<open>json.loads\<close> only:
  \<open>tweet.get\<close> on a decoded value that is not an object raises \<open>AttributeError\<close>,
  and what the \<open>else\<close> branch raises is not handled here either. The returned
  \<open>last_tweet_time\<close> only goes to the log.
\<close>

definition parse_line :: "services \<Rightarrow> string \<Rightarrow> consumer \<Rightarrow> consumer \<times> exn option" where
  "parse_line sv line w =
     (case loads sv line of
        None \<Rightarrow> (w, None)
      | Some (JObject kv) \<Rightarrow>
          seq (collect_map sv (JObject kv))
         (seq (collect_cloud sv (JObject kv))
         (seq (collect_images sv (JObject kv))
         (seq (collect_stats sv (JObject kv))
              (collect_search sv (JObject kv))))) w
      | Some other \<Rightarrow> (w, Some AttributeError))"

text \<open>How the loop over the logged lines ends.\<close>

datatype loop_exit = Exhausted | Returned | Raised exn

fun compile_loop :: "services \<Rightarrow> string list \<Rightarrow> consumer \<Rightarrow> consumer \<times> loop_exit" where
  "compile_loop sv [] w = (w, Exhausted)"
| "compile_loop sv (l # ls) w =
     (if should_stop w then (w, Returned)
      else (case parse_line sv l w of
              (w1, Some e) \<Rightarrow> (w1, Raised e)
            | (w1, None) \<Rightarrow> compile_loop sv ls w1))"

text \<open>\<open>_compile_aggregates\<close> over the lines \<open>archive.get_tweets()\<close> yields.\<close>

definition compile_aggregates :: "services \<Rightarrow> string list \<Rightarrow> consumer \<Rightarrow> consumer \<times> exn option" where
  "compile_aggregates sv lines w =
     (case compile_loop sv lines (set_archive (\<lambda>a. a\<lparr>total_a := 0\<rparr>) w) of
        (w1, Raised e) \<Rightarrow> (w1, Some e)
      | (w1, Returned) \<Rightarrow> (w1, None)
      | (w1, Exhausted) \<Rightarrow>
          (set_archive (\<lambda>a. a\<lparr>total_a := aggregate_total (statistics w1)\<rparr>) w1, None))"

subsection \<open>What a step leaves when nothing raises\<close>

fun is_object :: "json \<Rightarrow> bool" where
  "is_object (JObject kv) = True"
| "is_object other = False"

text \<open>
  A logged line the replay gets past: \<open>json.loads\<close> rejects it, or it decodes to an
  object on which no aggregator fed by \<open>_parse_line\<close> raises.
\<close>

definition replayable :: "services \<Rightarrow> string \<Rightarrow> bool" where
  "replayable sv l =
     (case loads sv l of
        None \<Rightarrow> True
      | Some t \<Rightarrow> is_object t
          \<and> list_all (\<lambda>p. collect_raises sv p t = None) [Map, Cloud, Images, Statistics, Search])"

text \<open>The consumer after \<open>_parse_line\<close> has fed one record.\<close>

definition replayed :: "json \<Rightarrow> consumer \<Rightarrow> consumer" where
  "replayed t w =
     w\<lparr>map_p := (map_p w)\<lparr>collected := collected (map_p w) @ [t]\<rparr>,
       cloud := (cloud w)\<lparr>collected := collected (cloud w) @ [t]\<rparr>,
       images := (images w)\<lparr>collected := collected (images w) @ [t]\<rparr>,
       statistics := (statistics w)\<lparr>collected := collected (statistics w) @ [t],
                                     aggregate_total := aggregate_total (statistics w) + 1\<rparr>,
       search := (if allow_search (archive w)
                  then (search w)\<lparr>collected := collected (search w) @ [t]\<rparr>
                  else search w)\<rparr>"

text \<open>The aggregators \<open>_process_message\<close> feeds, in its order.\<close>

definition collecting :: "consumer \<Rightarrow> parser_id list" where
  "collecting w =
     [Raw, Cloud, Images, Statistics, Map] @ (if allow_search (archive w) then [Search] else [])"

text \<open>The consumer after \<open>_process_message\<close> has counted and fed one record.\<close>

definition received :: "json \<Rightarrow> consumer \<Rightarrow> consumer" where
  "received t w =
     w\<lparr>archive := (archive w)\<lparr>total_a := total_a (archive w) + 1\<rparr>,
       raw := (raw w)\<lparr>collected := collected (raw w) @ [t]\<rparr>,
       cloud := (cloud w)\<lparr>collected := collected (cloud w) @ [t]\<rparr>,
       images := (images w)\<lparr>collected := collected (images w) @ [t]\<rparr>,
       statistics := (statistics w)\<lparr>collected := collected (statistics w) @ [t],
                                     aggregate_total := aggregate_total (statistics w) + 1\<rparr>,
       map_p := (map_p w)\<lparr>collected := collected (map_p w) @ [t]\<rparr>,
       search := (if allow_search (archive w)
                  then (search w)\<lparr>collected := collected (search w) @ [t]\<rparr>
                  else search w)\<rparr>"

text \<open>The archive after a flush at \<open>now\<close>, before its size is recomputed.\<close>

definition distilled :: "int \<Rightarrow> consumer \<Rightarrow> archive" where
  "distilled now w =
     (archive w)\<lparr>cloud_snapshot := Some (Snapshot (collected (cloud w))),
                 cloud_generated := Some now,
                 statistics_snapshot := Some (Snapshot (collected (statistics w))),
                 statistics_generated := Some now,
                 images_snapshot := Some (Snapshot (collected (images w))),
                 images_generated := Some now,
                 total_a := aggregate_total (statistics w)\<rparr>"

definition flushed :: "services \<Rightarrow> int \<Rightarrow> consumer \<Rightarrow> consumer" where
  "flushed sv now w =
     w\<lparr>last_distilled := now,
       archive := (distilled now w)\<lparr>size_a := calculate_size sv (distilled now w)\<rparr>\<rparr>"

section \<open>Concrete inputs\<close>

definition example_archive ::
  "nat \<Rightarrow> nat \<Rightarrow> user_status \<Rightarrow> int \<Rightarrow> int option \<Rightarrow> bool \<Rightarrow> archive" where
  "example_archive p u st opens closes r =
     \<lparr>pk = p, user = \<lparr>uid = u, status = st\<rparr>, query = ''q'', started = opens,
      stopped = closes, is_running = r, allow_consumption = True, allow_search = False,
      total_a = 0, size_a = 0, cloud_snapshot = None, cloud_generated = None,
      statistics_snapshot = None, statistics_generated = None,
      images_snapshot = None, images_generated = None\<rparr>"

text \<open>An upstream that accepts every connection.\<close>

definition reliable :: upstream where
  "reliable = \<lparr>authenticate_raises = (\<lambda>u. None), filter_raises = (\<lambda>u. None)\<rparr>"

text \<open>An archive scheduled to start at 5 and not yet running.\<close>

definition scheduled :: archive where
  "scheduled = example_archive 1 1 STATUS_ENABLED 5 None False"

text \<open>
  An archive whose window closes at 5. It is started at 1, its connection is lost, and
  the next pass runs at 10.
\<close>

definition expiring :: archive where
  "expiring = example_archive 7 1 STATUS_ENABLED 0 (Some 5) False"

definition lost_then_expired :: command where
  "lost_then_expired =
     loop_body reliable 10 (connection_lost 1 (loop_body reliable 1 (init [expiring])))"

text \<open>
  Two unbounded archives 7 and 9 of owner 1, started by a first pass at 1, after which
  the connection is lost.
\<close>

definition dropped :: command where
  "dropped =
     connection_lost 1
       (loop_body reliable 1
          (init [example_archive 7 1 STATUS_ENABLED 0 None False,
                 example_archive 9 1 STATUS_ENABLED 0 None False]))"

definition dead_stream :: stream where
  "dead_stream =
     \<lparr>auth_user = 1, running = False, log_open = True,
      channels = [example_archive 7 1 STATUS_ENABLED 0 None True,
                  example_archive 9 1 STATUS_ENABLED 0 None True],
      track = [''q'']\<rparr>"

text \<open>
  A registry whose only stream is dead and bound to three archives: 3 starts at 100,
  the window of 4 closed at 5, and the owner of 5 is disabled.
\<close>

definition stale_stream :: stream where
  "stale_stream =
     \<lparr>auth_user = 2, running = False, log_open = True,
      channels = [example_archive 3 2 STATUS_ENABLED 100 None True,
                  example_archive 4 2 STATUS_ENABLED 0 (Some 5) True,
                  example_archive 5 2 STATUS_DISABLED 0 None True],
      track = [''q'']\<rparr>"

definition stale :: command where
  "stale =
     \<lparr>tracking = channels stale_stream,
      streams = [(2, stale_stream)],
      first_pass_completed = False,
      db = channels stale_stream,
      released = [], alerts = [], slept = 0\<rparr>"


text \<open>
  A decoder for the lines used below: \<open>{}\<close> is an empty object, \<open>7\<close> a number,
  anything else is rejected.
\<close>

definition toy_loads :: "string \<Rightarrow> json option" where
  "toy_loads l =
     (if l = ''{}'' then Some (JObject [])
      else if l = ''7'' then Some (JNumber 7)
      else None)"

text \<open>Collaborators that never raise.\<close>

definition calm :: services where
  "calm = \<lparr>loads = toy_loads, collect_raises = (\<lambda>p t. None),
           generate_raises = (\<lambda>p. None), calculate_size = (\<lambda>a. 0)\<rparr>"

text \<open>The raw aggregator's \<open>generate()\<close> raises.\<close>

definition flush_fails :: services where
  "flush_fails =
     \<lparr>loads = toy_loads, collect_raises = (\<lambda>p t. None),
      generate_raises = (\<lambda>p. if p = Raw then Some (OtherError ''no space'') else None),
      calculate_size = (\<lambda>a. 0)\<rparr>"

text \<open>The cloud aggregator's \<open>collect\<close> raises.\<close>

definition cloud_fails :: services where
  "cloud_fails =
     \<lparr>loads = toy_loads,
      collect_raises = (\<lambda>p t. if p = Cloud then Some (OtherError ''boom'') else None),
      generate_raises = (\<lambda>p. None), calculate_size = (\<lambda>a. 0)\<rparr>"

text \<open>The statistics aggregator's \<open>collect\<close> raises.\<close>

definition statistics_fails :: services where
  "statistics_fails =
     \<lparr>loads = toy_loads,
      collect_raises = (\<lambda>p t. if p = Statistics then Some (OtherError ''bang'') else None),
      generate_raises = (\<lambda>p. None), calculate_size = (\<lambda>a. 0)\<rparr>"

text \<open>A consumer just started at 0 for an archive whose stored total is 0.\<close>

definition fresh :: consumer where
  "fresh = start (example_archive 1 1 STATUS_ENABLED 0 None True) 0"

definition unacked :: message where
  "unacked = \<lparr>acked = False\<rparr>"


section \<open>Properties of the collector\<close>

subsection \<open>Restart detection\<close>

lemma to_restart_mem:
  "(u, st) \<in> set (streams s) \<Longrightarrow> \<not> running st \<Longrightarrow> c \<in> set (channels st) \<Longrightarrow>
     pk c \<in> set (to_restart s)"
  by (force simp: to_restart_def)

lemma to_restart_all_running:
  "list_all (\<lambda>(u, st). running st) (streams s) \<Longrightarrow> to_restart s = []"
  by (auto simp: to_restart_def list_all_iff)

lemma first_pass_filter_frame:
  "to_restart (snd (first_pass_filter r s)) = to_restart s"
  "db (snd (first_pass_filter r s)) = db s"
  "slept (snd (first_pass_filter r s)) = slept s"
  "streams (snd (first_pass_filter r s)) = streams s"
  "released (snd (first_pass_filter r s)) = released s"
  by (simp_all add: first_pass_filter_def to_restart_def)

lemma first_pass_filter_guard:
  "first_pass_completed (snd (first_pass_filter r s)) = first_pass_completed s"
  by (simp add: first_pass_filter_def)

lemma handle_restarts_guard:
  "first_pass_completed (snd (handle_restarts ts s)) = first_pass_completed s"
  by (simp add: handle_restarts_def sleep_def)

lemma get_archives_to_start_guard:
  "first_pass_completed (snd (get_archives_to_start now s)) = first_pass_completed s"
  by (simp add: get_archives_to_start_def Let_def case_prod_beta handle_restarts_guard
      first_pass_filter_guard)

lemma handle_restarts_mem:
  "p \<in> set (to_restart s) \<Longrightarrow> a \<in> set (db s) \<Longrightarrow> pk a = p \<Longrightarrow>
     a \<in> set (fst (handle_restarts ts s)) \<and> slept (snd (handle_restarts ts s)) = slept s + 30"
  by (auto simp: handle_restarts_def sleep_def CHILL_TIME_def)

lemma get_archives_restart:
  assumes "p \<in> set (to_restart s)" "a \<in> set (db s)" "pk a = p"
  shows "(a \<in> set (fst (get_archives_to_start now s)) \<longleftrightarrow> status (user a) \<noteq> STATUS_DISABLED)
    \<and> slept (snd (get_archives_to_start now s)) = slept s + 30"
proof -
  define r where "r = filter (\<lambda>a. started a \<le> now \<and> \<not> tracked a s) (db s)"
  obtain r1 s1 where f: "first_pass_filter r s = (r1, s1)"
    by (cases "first_pass_filter r s")
  have s1: "to_restart s1 = to_restart s" "db s1 = db s" "slept s1 = slept s"
    using first_pass_filter_frame(1-3)[of r s] by (simp_all add: f)
  have h: "a \<in> set (fst (handle_restarts (filter (window_open now) r1) s1))
     \<and> slept (snd (handle_restarts (filter (window_open now) r1) s1)) = slept s + 30"
    using handle_restarts_mem[of p s1 a "filter (window_open now) r1"] assms s1 by simp
  have g: "get_archives_to_start now s =
     (filter (\<lambda>a. status (user a) \<noteq> STATUS_DISABLED)
        (fst (handle_restarts (filter (window_open now) r1) s1)),
      snd (handle_restarts (filter (window_open now) r1) s1))"
    using f by (simp add: get_archives_to_start_def Let_def case_prod_beta r_def)
  show ?thesis using h by (simp add: g)
qed

lemma dropped_state:
  "streams dropped = [(1, dead_stream)] \<and> db dropped = channels dead_stream
   \<and> tracking dropped = channels dead_stream \<and> slept dropped = 6"
  by code_simp

text \<open>
  Claim C1. On every tick after the very first, \<open>to_start\<close> should leave out the
  archives whose \<open>is_running\<close> flag is false. The program does not: the assignment that
  sets \<open>first_pass_completed\<close> stands inside the branch the flag guards, so computing
  \<open>to_start\<close> never changes the flag, and from \<open>__init__\<close> on it stays false. In the
  run below nothing is due on the first tick at 0; on the second tick at 10 the archive,
  still marked not running, is in \<open>to_start\<close> and is then tracked.
\<close>

theorem first_pass_guard_is_never_set:
  "first_pass_completed (snd (get_archives_to_start now s)) = first_pass_completed s
   \<and> first_pass_completed (loop_body reliable 0 (init [scheduled])) = False
   \<and> tracking (loop_body reliable 0 (init [scheduled])) = []
   \<and> map pk (fst (get_archives_to_start 10 (loop_body reliable 0 (init [scheduled])))) = [1]
   \<and> map is_running (fst (get_archives_to_start 10 (loop_body reliable 0 (init [scheduled]))))
       = [False]
   \<and> map pk (tracking (loop_body reliable 10 (loop_body reliable 0 (init [scheduled])))) = [1]"
proof -
  have run: "first_pass_completed (loop_body reliable 0 (init [scheduled])) = False
   \<and> tracking (loop_body reliable 0 (init [scheduled])) = []
   \<and> map pk (fst (get_archives_to_start 10 (loop_body reliable 0 (init [scheduled])))) = [1]
   \<and> map is_running (fst (get_archives_to_start 10 (loop_body reliable 0 (init [scheduled]))))
       = [False]
   \<and> map pk (tracking (loop_body reliable 10 (loop_body reliable 0 (init [scheduled])))) = [1]"
    by code_simp
  show ?thesis using get_archives_to_start_guard[of now s] run by (rule conjI)
qed

text \<open>
  Claim C2. For a registered stream that reports not running, the keys of the archives
  bound to it are collected, the command sleeps the cooldown of 30 once, and each such
  archive of the table is in what \<open>_handle_restarts\<close> returns, whatever \<open>to_start\<close> it
  was given: the filters on tracking and on the running flag were applied before and do
  not bear on it. It stays in the result of \<open>_get_archives_to_start\<close> when its owner is
  not disabled. When every registered stream is running, \<open>_handle_restarts\<close> returns
  its argument and the state as it was, so nothing is slept.
\<close>

theorem restart_detection_widens_to_start:
  "((u, st) \<in> set (streams s) \<and> \<not> running st \<and> c \<in> set (channels st)
      \<and> a \<in> set (db s) \<and> pk a = pk c
      \<longrightarrow> a \<in> set (fst (handle_restarts ts s))
          \<and> slept (snd (handle_restarts ts s)) = slept s + CHILL_TIME
          \<and> CHILL_TIME = 30
          \<and> slept (snd (get_archives_to_start now s)) = slept s + CHILL_TIME
          \<and> (status (user a) \<noteq> STATUS_DISABLED
               \<longrightarrow> a \<in> set (fst (get_archives_to_start now s))))
   \<and> (list_all (\<lambda>(u, st). running st) (streams s) \<longrightarrow> handle_restarts ts s = (ts, s))"
  using to_restart_mem[of u st s c] handle_restarts_mem[of "pk c" s a ts]
    get_archives_restart[of "pk c" s a now] to_restart_all_running[of s]
  by (auto simp: handle_restarts_def CHILL_TIME_def)

theorem restart_detection_widens_to_start_witness:
  "example_archive 7 1 STATUS_ENABLED 0 None True \<in> set (fst (handle_restarts [] dropped))
   \<and> example_archive 9 1 STATUS_ENABLED 0 None True \<in> set (fst (get_archives_to_start 2 dropped))
   \<and> tracked (example_archive 9 1 STATUS_ENABLED 0 None True) dropped
   \<and> slept (snd (get_archives_to_start 2 dropped)) = slept dropped + 30
   \<and> handle_restarts [] (init []) = ([], init [])"
proof -
  have a: "example_archive 7 1 STATUS_ENABLED 0 None True \<in> set (fst (handle_restarts [] dropped))"
    using restart_detection_widens_to_start[of 1 dead_stream dropped
        "example_archive 7 1 STATUS_ENABLED 0 None True"
        "example_archive 7 1 STATUS_ENABLED 0 None True" "[]" 2]
    by (simp add: dropped_state dead_stream_def)
  have b: "example_archive 9 1 STATUS_ENABLED 0 None True \<in> set (fst (get_archives_to_start 2 dropped))
     \<and> slept (snd (get_archives_to_start 2 dropped)) = slept dropped + 30"
    using restart_detection_widens_to_start[of 1 dead_stream dropped
        "example_archive 9 1 STATUS_ENABLED 0 None True"
        "example_archive 9 1 STATUS_ENABLED 0 None True" "[]" 2]
    by (simp add: dropped_state dead_stream_def example_archive_def CHILL_TIME_def)
  have c: "tracked (example_archive 9 1 STATUS_ENABLED 0 None True) dropped"
    by (simp add: tracked_def dropped_state dead_stream_def)
  have d: "handle_restarts [] (init []) = ([], init [])"
    using restart_detection_widens_to_start[of 0 dead_stream "init []"
        "example_archive 9 1 STATUS_ENABLED 0 None True"
        "example_archive 9 1 STATUS_ENABLED 0 None True" "[]" 2]
    by (simp add: init_def)
  show ?thesis using a b c d by blast
qed

text \<open>
  Claim C10. An archive bound to a stream that is not running is in \<open>to_start\<close> exactly
  when its owner is not disabled: neither \<open>started\<close>, nor \<open>stopped\<close>, nor the running
  flag, nor the tracked set has a say.
\<close>

theorem restarted_ids_bypass_the_window:
  "(u, st) \<in> set (streams s) \<Longrightarrow> \<not> running st \<Longrightarrow> c \<in> set (channels st) \<Longrightarrow>
   a \<in> set (db s) \<Longrightarrow> pk a = pk c \<Longrightarrow>
     (a \<in> set (fst (get_archives_to_start now s)) \<longleftrightarrow> status (user a) \<noteq> STATUS_DISABLED)"
  using to_restart_mem[of u st s c] get_archives_restart[of "pk c" s a now] by simp

theorem restarted_ids_bypass_the_window_witness:
  "example_archive 3 2 STATUS_ENABLED 100 None True \<in> set (fst (get_archives_to_start 10 stale))
   \<and> 10 < started (example_archive 3 2 STATUS_ENABLED 100 None True)
   \<and> example_archive 4 2 STATUS_ENABLED 0 (Some 5) True \<in> set (fst (get_archives_to_start 10 stale))
   \<and> expired 10 (example_archive 4 2 STATUS_ENABLED 0 (Some 5) True)
   \<and> example_archive 5 2 STATUS_DISABLED 0 None True \<notin> set (fst (get_archives_to_start 10 stale))"
proof -
  have a: "example_archive 3 2 STATUS_ENABLED 100 None True \<in> set (fst (get_archives_to_start 10 stale))"
    using restarted_ids_bypass_the_window[of 2 stale_stream stale
        "example_archive 3 2 STATUS_ENABLED 100 None True"
        "example_archive 3 2 STATUS_ENABLED 100 None True" 10]
    by (simp add: stale_def stale_stream_def example_archive_def)
  have b: "example_archive 4 2 STATUS_ENABLED 0 (Some 5) True \<in> set (fst (get_archives_to_start 10 stale))"
    using restarted_ids_bypass_the_window[of 2 stale_stream stale
        "example_archive 4 2 STATUS_ENABLED 0 (Some 5) True"
        "example_archive 4 2 STATUS_ENABLED 0 (Some 5) True" 10]
    by (simp add: stale_def stale_stream_def example_archive_def)
  have c: "example_archive 5 2 STATUS_DISABLED 0 None True \<notin> set (fst (get_archives_to_start 10 stale))"
    using restarted_ids_bypass_the_window[of 2 stale_stream stale
        "example_archive 5 2 STATUS_DISABLED 0 None True"
        "example_archive 5 2 STATUS_DISABLED 0 None True" 10]
    by (simp add: stale_def stale_stream_def example_archive_def)
  have d: "10 < started (example_archive 3 2 STATUS_ENABLED 100 None True)
     \<and> expired 10 (example_archive 4 2 STATUS_ENABLED 0 (Some 5) True)"
    by (simp add: example_archive_def expired_def)
  show ?thesis using a b c d by blast
qed

text \<open>
  Claim C4. An archive with \<open>stopped <= now\<close> should be stopped by the tick: flag false,
  not tracked, in no live channel. The program misses the case where the archive is
  bound to a stream that is not running: restart detection puts it back into
  \<open>to_start\<close> whatever its window, so the same tick stops it and starts it again. In the
  run below the archive closes at 5; after the tick at 10 it is tracked, its flag is
  true, and the one live channel of its owner carries it. When no registered stream
  reports not running, the tick does stop every expired archive
  (\<open>expired_archive_stopped_off_the_restart_path\<close> below).
\<close>

theorem expired_archive_restarted_by_the_same_tick:
  "map pk (tracking lost_then_expired) = [7]
   \<and> map stopped (db lost_then_expired) = [Some 5]
   \<and> map is_running (db lost_then_expired) = [True]
   \<and> map (\<lambda>st. map pk (channels st)) (live_channels lost_then_expired 1) = [[7]]"
  by code_simp

subsection \<open>One channel per owner\<close>

lemma update_fresh: "u \<notin> fst ` set al \<Longrightarrow> AList.update u v al = al @ [(u, v)]"
  by (induction al) auto

lemma points_inv:
  assumes step: "\<And>x xs s. I (x # xs) s \<Longrightarrow> list_all P (pts x s) \<and> I xs (f x s)"
    and start: "I xs s"
  shows "list_all P (points pts f xs s) \<and> I [] (fold f xs s)"
  using start
proof (induction xs arbitrary: s)
  case Nil
  then show ?case by simp
next
  case (Cons x xs)
  from step[OF Cons.prems] have a: "list_all P (pts x s)" and b: "I xs (f x s)" by simp_all
  from Cons.IH[OF b] a show ?case by simp
qed

lemma last_cons_append: "last (s # xs @ ys) = last (last (s # xs) # ys)"
  by (simp add: last_append)

lemma last_points:
  assumes "\<And>x s. last (s # pts x s) = f x s"
  shows "last (s # points pts f xs s) = fold f xs s"
proof (induction xs arbitrary: s)
  case Nil
  then show ?case by simp
next
  case (Cons x xs)
  have "last (s # points pts f (x # xs) s) = last (last (s # pts x s) # points pts f xs (f x s))"
    using last_cons_append[of s "pts x s" "points pts f xs (f x s)"] by simp
  also have "\<dots> = last (f x s # points pts f xs (f x s))" by (simp only: assms)
  also have "\<dots> = fold f xs (f x s)" by (rule Cons.IH)
  finally show ?case by simp
qed

lemma map_fst_map_entry: "map fst (AList.map_entry u f al) = map fst al"
  by (induction al) auto

lemma list_all_map_entry:
  "list_all (\<lambda>(k, st). Q k st) al \<Longrightarrow> (\<And>st. Q u st \<Longrightarrow> Q u (f st)) \<Longrightarrow>
     list_all (\<lambda>(k, st). Q k st) (AList.map_entry u f al)"
  by (induction al) auto

lemma list_all_delete:
  "list_all Q al \<Longrightarrow> list_all Q (AList.delete u al)"
  by (induction al) auto

lemma registry_ok_disconnect: "registry_ok s \<Longrightarrow> registry_ok (disconnect u s)"
  by (simp add: registry_ok_def disconnect_def map_fst_map_entry list_all_map_entry)

lemma registry_ok_close_log: "registry_ok s \<Longrightarrow> registry_ok (close_log u s)"
  by (simp add: registry_ok_def close_log_def map_fst_map_entry list_all_map_entry)

lemma unreferenced_after_disconnect:
  "list_all (\<lambda>st. \<not> running st \<and> \<not> log_open st) (unreferenced u (close_log u (disconnect u s)))"
  by (simp add: unreferenced_def close_log_def disconnect_def AList.map_of_map_entry split: option.splits)

lemma registry_ok_del_stream:
  "registry_ok s \<Longrightarrow> list_all (\<lambda>st. \<not> running st \<and> \<not> log_open st) (unreferenced u s) \<Longrightarrow>
     registry_ok (del_stream u s)"
  by (simp add: registry_ok_def del_stream_def AList.distinct_delete list_all_delete)

lemma registry_ok_kill3:
  "registry_ok s \<Longrightarrow> registry_ok (del_stream u (close_log u (disconnect u s)))"
  by (simp add: registry_ok_del_stream registry_ok_close_log registry_ok_disconnect
      unreferenced_after_disconnect)

lemma registry_ok_kill_stream: "registry_ok s \<Longrightarrow> registry_ok (kill_stream u s)"
  by (simp add: kill_stream_def registry_ok_kill3)

lemma keys_delete: "fst ` set (AList.delete u al) = fst ` set al - {u}"
  by (induction al) auto

lemma keys_kill_stream:
  "fst ` set (streams (kill_stream u s)) = fst ` set (streams s) - {u}"
proof (cases "u \<in> fst ` set (streams s)")
  case True
  then show ?thesis
    by (simp add: kill_stream_def del_stream_def close_log_def disconnect_def keys_delete
        AList.dom_map_entry)
next
  case False
  then show ?thesis by (simp add: kill_stream_def)
qed

lemma keys_fold_kill:
  "fst ` set (streams (fold kill_stream us s)) = fst ` set (streams s) - set us"
proof (induction us arbitrary: s)
  case Nil
  then show ?case by simp
next
  case (Cons u us)
  have "fst ` set (streams (fold kill_stream (u # us) s)) = fst ` set (streams (kill_stream u s)) - set us"
    using Cons.IH[of "kill_stream u s"] by simp
  also have "\<dots> = fst ` set (streams s) - set (u # us)"
    by (simp only: keys_kill_stream) auto
  finally show ?case .
qed

lemma kill_points_ok: "registry_ok s \<Longrightarrow> list_all registry_ok (kill_points u s)"
  by (simp add: kill_points_def registry_ok_disconnect registry_ok_close_log registry_ok_kill3)

lemma streams_stop_tracking [simp]:
  "streams (stop_tracking a s) = streams s" "released (stop_tracking a s) = released s"
  by (simp_all add: stop_tracking_def Let_def)

lemma streams_start_tracking [simp]:
  "streams (start_tracking a s) = streams s" "released (start_tracking a s) = released s"
  by (simp_all add: start_tracking_def Let_def)

lemma registry_ok_cong: "streams t = streams s \<Longrightarrow> released t = released s \<Longrightarrow> registry_ok t = registry_ok s"
  by (simp add: registry_ok_def)

lemma registry_ok_stop_tracking [simp]: "registry_ok (stop_tracking a s) = registry_ok s"
  by (rule registry_ok_cong) simp_all

lemma registry_ok_start_tracking [simp]: "registry_ok (start_tracking a s) = registry_ok s"
  by (rule registry_ok_cong) simp_all

lemma registry_ok_alert [simp]: "registry_ok (alert e s) = registry_ok s"
  by (rule registry_ok_cong) (simp_all add: alert_def)

lemma registry_ok_sleep [simp]: "registry_ok (sleep n s) = registry_ok s"
  by (rule registry_ok_cong) (simp_all add: sleep_def)

lemma streams_fold_stop [simp]: "streams (fold stop_tracking as s) = streams s"
  by (induction as arbitrary: s) simp_all

lemma streams_fold_start [simp]: "streams (fold start_tracking as s) = streams s"
  by (induction as arbitrary: s) simp_all

lemma registry_ok_assign:
  "registry_ok s \<Longrightarrow> u \<notin> fst ` set (streams s) \<Longrightarrow> registry_ok (assign_stream u (new_stream u as) s)"
  by (simp add: registry_ok_def assign_stream_def update_fresh unreferenced_def new_stream_def
      map_of_eq_None_iff[THEN iffD2])

lemma registry_ok_filter_stream:
  "registry_ok s \<Longrightarrow> registry_ok (filter_stream u terms s)"
  by (simp add: registry_ok_def filter_stream_def map_fst_map_entry list_all_map_entry)

lemma keys_assign: "fst ` set (streams (assign_stream u st s)) = insert u (fst ` set (streams s))"
  using AList.dom_update[of u st "streams s"] by (simp add: assign_stream_def)

lemma keys_filter_stream [simp]: "map fst (streams (filter_stream u terms s)) = map fst (streams s)"
  by (simp add: filter_stream_def map_fst_map_entry)

lemma keys_alert [simp]: "streams (alert e s) = streams s"
  by (simp add: alert_def)

lemma keys_sleep [simp]: "streams (sleep n s) = streams s"
  by (simp add: sleep_def)

lemma connect_points_ok:
  "registry_ok s \<Longrightarrow> u \<notin> fst ` set (streams s) \<Longrightarrow> list_all registry_ok (connect_points up (u, as) s)"
  by (simp add: connect_points_def Let_def registry_ok_assign registry_ok_filter_stream
      split: option.splits)

lemma connect_ok:
  "registry_ok s \<Longrightarrow> u \<notin> fst ` set (streams s) \<Longrightarrow> registry_ok (connect up (u, as) s)"
  by (simp add: connect_def Let_def registry_ok_assign registry_ok_filter_stream
      split: option.splits)

lemma keys_filter_stream' [simp]: "fst ` set (streams (filter_stream u terms s)) = fst ` set (streams s)"
  by (simp add: filter_stream_def AList.dom_map_entry)

lemma keys_connect:
  "fst ` set (streams (connect up (u, as) s)) \<subseteq> insert u (fst ` set (streams s))"
  by (simp add: connect_def Let_def keys_assign subset_insertI split: option.splits)

lemma keys_group_step: "fst ` set (group_step ua a g) \<subseteq> set ua \<union> fst ` set g"
proof (cases "uid (user a) \<in> set ua")
  case True
  then show ?thesis by (simp add: group_step_def AList.dom_update)
next
  case False
  then show ?thesis by (simp add: group_step_def)
qed

lemma distinct_group_step: "distinct (map fst g) \<Longrightarrow> distinct (map fst (group_step ua a g))"
  by (simp add: group_step_def AList.distinct_update)

lemma fold_group_step:
  "distinct (map fst g) \<Longrightarrow> distinct (map fst (fold (group_step ua) tr g))
     \<and> fst ` set (fold (group_step ua) tr g) \<subseteq> set ua \<union> fst ` set g"
proof (induction tr arbitrary: g)
  case Nil
  then show ?case by simp
next
  case (Cons a tr)
  have d: "distinct (map fst (group_step ua a g))"
    by (rule distinct_group_step[OF Cons.prems])
  have k: "fst ` set (group_step ua a g) \<subseteq> set ua \<union> fst ` set g"
    by (rule keys_group_step)
  from Cons.IH[OF d]
  have 1: "distinct (map fst (fold (group_step ua) tr (group_step ua a g)))"
    and 2: "fst ` set (fold (group_step ua) tr (group_step ua a g)) \<subseteq> set ua \<union> fst ` set (group_step ua a g)"
    by blast+
  from 2 k have "fst ` set (fold (group_step ua) tr (group_step ua a g)) \<subseteq> set ua \<union> fst ` set g"
    by blast
  with 1 show ?case by simp
qed

lemma regroup_keys: "distinct (map fst (regroup ua tr))" "fst ` set (regroup ua tr) \<subseteq> set ua"
  using fold_group_step[of "[]" ua tr] by (simp_all add: regroup_def)


lemma kill_phase_ok:
  "registry_ok s \<Longrightarrow>
     list_all registry_ok (points kill_points kill_stream us s) \<and> registry_ok (fold kill_stream us s)"
  by (rule points_inv[where I = "\<lambda>_ t. registry_ok t"]) (simp_all add: kill_points_ok registry_ok_kill_stream)

lemma stop_phase_ok:
  "registry_ok s \<Longrightarrow>
     list_all registry_ok (points (\<lambda>a t. [stop_tracking a t]) stop_tracking as s)
     \<and> registry_ok (fold stop_tracking as s)"
  by (rule points_inv[where I = "\<lambda>_ t. registry_ok t"]) simp_all

lemma start_phase_ok:
  "registry_ok s \<Longrightarrow>
     list_all registry_ok (points (\<lambda>a t. [start_tracking a t]) start_tracking as s)
     \<and> registry_ok (fold start_tracking as s)"
  by (rule points_inv[where I = "\<lambda>_ t. registry_ok t"]) simp_all

lemma connectable_step:
  assumes "connectable (g # gs) s"
  shows "list_all registry_ok (connect_points up g s) \<and> connectable gs (connect up g s)"
proof -
  obtain u as where g: "g = (u, as)" by (cases g)
  from assms g have ok: "registry_ok s" and fresh: "u \<notin> fst ` set (streams s)"
    and d: "distinct (map fst gs)" and notin: "u \<notin> fst ` set gs"
    and disj: "fst ` set gs \<inter> fst ` set (streams s) = {}"
    by (auto simp: connectable_def)
  have "fst ` set gs \<inter> fst ` set (streams (connect up (u, as) s)) = {}"
    using keys_connect[of up u as s] notin disj by blast
  then show ?thesis
    using connect_points_ok[OF ok fresh] connect_ok[OF ok fresh] d by (simp add: g connectable_def)
qed

lemma connect_phase_ok:
  "connectable gs s \<Longrightarrow>
     list_all registry_ok (points (connect_points up) (connect up) gs s)
     \<and> connectable [] (fold (connect up) gs s)"
  by (rule points_inv[where I = connectable]) (simp_all add: connectable_step)

lemma adjust_connections_points_ok:
  assumes "registry_ok s"
  shows "list_all registry_ok (adjust_connections_points up to_start to_stop s)"
proof -
  define ua where "ua = map (\<lambda>a. uid (user a)) (to_start @ to_stop)"
  define s1 where "s1 = fold kill_stream ua s"
  define s2 where "s2 = fold stop_tracking to_stop s1"
  define s3 where "s3 = fold start_tracking to_start s2"
  define gs where "gs = regroup ua (tracking s3)"
  have p1: "list_all registry_ok (points kill_points kill_stream ua s)" and ok1: "registry_ok s1"
    using kill_phase_ok[OF assms, of ua] by (simp_all add: s1_def)
  have p2: "list_all registry_ok (points (\<lambda>a t. [stop_tracking a t]) stop_tracking to_stop s1)"
    and ok2: "registry_ok s2"
    using stop_phase_ok[OF ok1, of to_stop] by (simp_all add: s2_def)
  have p3: "list_all registry_ok (points (\<lambda>a t. [start_tracking a t]) start_tracking to_start s2)"
    and ok3: "registry_ok s3"
    using start_phase_ok[OF ok2, of to_start] by (simp_all add: s3_def)
  have "fst ` set (streams s3) = fst ` set (streams s) - set ua"
    by (simp add: s3_def s2_def s1_def keys_fold_kill)
  then have "fst ` set gs \<inter> fst ` set (streams s3) = {}"
    using regroup_keys(2)[of ua "tracking s3"] by (auto simp: gs_def)
  then have "connectable gs s3"
    using ok3 regroup_keys(1)[of ua "tracking s3"] by (simp add: connectable_def gs_def)
  then have p4: "list_all registry_ok (points (connect_points up) (connect up) gs s3)"
    using connect_phase_ok by blast
  show ?thesis
    using assms p1 p2 p3 p4
    by (simp add: adjust_connections_points_def Let_def ua_def s1_def s2_def s3_def gs_def)
qed

lemma last_adjust_connections_points:
  "last (adjust_connections_points up to_start to_stop s) = adjust_connections up to_start to_stop s"
proof -
  have k: "\<And>u t. last (t # kill_points u t) = kill_stream u t"
    by (simp add: kill_points_def kill_stream_def)
  have c: "\<And>g t. last (t # connect_points up g t) = connect up g t"
    by (simp add: connect_points_def connect_def Let_def split: prod.splits option.splits)
  have sp: "last (t # points (\<lambda>a t. [stop_tracking a t]) stop_tracking xs t) = fold stop_tracking xs t"
    for xs t by (rule last_points) simp
  have st: "last (t # points (\<lambda>a t. [start_tracking a t]) start_tracking xs t) = fold start_tracking xs t"
    for xs t by (rule last_points) simp
  show ?thesis
    unfolding adjust_connections_points_def adjust_connections_def Let_def
    by (simp only: last_cons_append last_points[where pts = kill_points, OF k]
        last_points[where pts = "connect_points up", OF c]
        sp st)
qed





lemma registry_ok_init: "registry_ok (init rows)"
  by (simp add: registry_ok_def init_def)



lemma registry_ok_adjust_connections:
  assumes "registry_ok s"
  shows "registry_ok (adjust_connections up to_start to_stop s)"
proof -
  have "adjust_connections_points up to_start to_stop s \<noteq> []"
    by (simp add: adjust_connections_points_def Let_def)
  then have "last (adjust_connections_points up to_start to_stop s)
      \<in> set (adjust_connections_points up to_start to_stop s)"
    by (rule last_in_set)
  then show ?thesis
    using adjust_connections_points_ok[OF assms, of up to_start to_stop]
    by (simp only: last_adjust_connections_points list_all_iff)
qed

lemma registry_ok_get_archives_to_start:
  "registry_ok (snd (get_archives_to_start now s)) = registry_ok s"
  by (rule registry_ok_cong)
     (simp_all add: get_archives_to_start_def Let_def case_prod_beta handle_restarts_def sleep_def
        first_pass_filter_frame)

lemma registry_ok_loop_body: "registry_ok s \<Longrightarrow> registry_ok (loop_body up now s)"
  using registry_ok_get_archives_to_start[of now s]
  by (simp add: loop_body_def Let_def case_prod_beta registry_ok_adjust_connections)

lemma registry_ok_connection_lost: "registry_ok s \<Longrightarrow> registry_ok (connection_lost u s)"
  by (simp add: registry_ok_def connection_lost_def map_fst_map_entry list_all_map_entry)




subsection \<open>Expired archives off the restart path\<close>

lemma save_is_running_other:
  "p \<noteq> q \<Longrightarrow> list_all (\<lambda>r. pk r = p \<longrightarrow> \<not> is_running r) (save_is_running q v rows)
     = list_all (\<lambda>r. pk r = p \<longrightarrow> \<not> is_running r) rows"
  by (induction rows) (simp_all add: save_is_running_def)

lemma save_is_running_False:
  "list_all (\<lambda>r. pk r = p \<longrightarrow> \<not> is_running r) (save_is_running p False rows)"
  by (induction rows) (simp_all add: save_is_running_def)

lemma save_is_running_False_keeps:
  "list_all (\<lambda>r. pk r = p \<longrightarrow> \<not> is_running r) rows \<Longrightarrow>
     list_all (\<lambda>r. pk r = p \<longrightarrow> \<not> is_running r) (save_is_running q False rows)"
  by (induction rows) (simp_all add: save_is_running_def)

lemma db_stop_tracking [simp]: "db (stop_tracking x s) = save_is_running (pk x) False (db s)"
  by (simp add: stop_tracking_def Let_def)

lemma db_start_tracking [simp]: "db (start_tracking x s) = save_is_running (pk x) True (db s)"
  by (simp add: start_tracking_def Let_def)

lemma rows_fold_stop_keeps:
  "list_all (\<lambda>r. pk r = p \<longrightarrow> \<not> is_running r) (db s) \<Longrightarrow>
     list_all (\<lambda>r. pk r = p \<longrightarrow> \<not> is_running r) (db (fold stop_tracking tp s))"
  by (induction tp arbitrary: s) (simp_all add: save_is_running_False_keeps)

lemma rows_fold_stop:
  "p \<in> pk ` set tp \<Longrightarrow> list_all (\<lambda>r. pk r = p \<longrightarrow> \<not> is_running r) (db (fold stop_tracking tp s))"
proof (induction tp arbitrary: s)
  case Nil
  then show ?case by simp
next
  case (Cons x tp)
  show ?case
  proof (cases "pk x = p")
    case True
    have "list_all (\<lambda>r. pk r = p \<longrightarrow> \<not> is_running r) (db (stop_tracking x s))"
      using save_is_running_False[of p "db s"] True by simp
    then show ?thesis using rows_fold_stop_keeps[of p "stop_tracking x s" tp] by simp
  next
    case False
    with Cons.prems have "p \<in> pk ` set tp" by auto
    from Cons.IH[OF this] show ?thesis by simp
  qed
qed

lemma rows_fold_start:
  "p \<notin> pk ` set ts \<Longrightarrow>
     list_all (\<lambda>r. pk r = p \<longrightarrow> \<not> is_running r) (db (fold start_tracking ts s))
       = list_all (\<lambda>r. pk r = p \<longrightarrow> \<not> is_running r) (db s)"
proof (induction ts arbitrary: s)
  case Nil
  then show ?case by simp
next
  case (Cons x ts)
  then have ne: "p \<noteq> pk x" and rest: "p \<notin> pk ` set ts" by auto
  show ?case using Cons.IH[OF rest, of "start_tracking x s"] save_is_running_other[OF ne] by simp
qed

lemma remove_archive_absent: "p \<notin> pk ` set xs \<Longrightarrow> remove_archive p xs = xs"
  by (induction xs) auto

lemma pks_remove_archive:
  "distinct (map pk xs) \<Longrightarrow> pk ` set (remove_archive p xs) = pk ` set xs - {p}"
proof (induction xs)
  case Nil
  then show ?case by simp
next
  case (Cons x xs)
  show ?case
  proof (cases "pk x = p")
    case True
    with Cons.prems have "p \<notin> pk ` set xs" by auto
    with True show ?thesis by auto
  next
    case False
    with Cons show ?thesis by auto
  qed
qed

lemma distinct_remove_archive:
  "distinct (map pk xs) \<Longrightarrow> distinct (map pk (remove_archive p xs))"
  by (induction xs) (auto simp: pks_remove_archive)

lemma set_remove_archive: "set (remove_archive p xs) \<subseteq> set xs"
  by (induction xs) auto

lemma tracking_stop_tracking:
  "tracking (stop_tracking x s) = (if tracked x s then remove_archive (pk x) (tracking s) else tracking s)"
  by (simp add: stop_tracking_def Let_def)

lemma pks_stop_tracking:
  "distinct (map pk (tracking s)) \<Longrightarrow>
     pk ` set (tracking (stop_tracking x s)) = pk ` set (tracking s) - {pk x}
     \<and> distinct (map pk (tracking (stop_tracking x s)))"
  by (auto simp: tracking_stop_tracking tracked_def pks_remove_archive distinct_remove_archive)

lemma pks_fold_stop:
  "distinct (map pk (tracking s)) \<Longrightarrow>
     pk ` set (tracking (fold stop_tracking tp s)) = pk ` set (tracking s) - pk ` set tp
     \<and> distinct (map pk (tracking (fold stop_tracking tp s)))"
proof (induction tp arbitrary: s)
  case Nil
  then show ?case by simp
next
  case (Cons x tp)
  from pks_stop_tracking[OF Cons.prems, of x]
  have a: "pk ` set (tracking (stop_tracking x s)) = pk ` set (tracking s) - {pk x}"
    and d: "distinct (map pk (tracking (stop_tracking x s)))" by simp_all
  from Cons.IH[OF d] a show ?case by auto
qed

lemma pks_start_tracking:
  "pk ` set (tracking (start_tracking x s)) = insert (pk x) (pk ` set (tracking s))"
  by (auto simp: start_tracking_def Let_def tracked_def)

lemma pks_fold_start:
  "pk ` set (tracking (fold start_tracking ts s)) = pk ` set (tracking s) \<union> pk ` set ts"
proof (induction ts arbitrary: s)
  case Nil
  then show ?case by simp
next
  case (Cons x ts)
  show ?case using Cons.IH[of "start_tracking x s"] pks_start_tracking[of x s] by auto
qed


lemma map_entry_entries:
  "(k, st) \<in> set (AList.map_entry u f al) \<Longrightarrow>
     \<exists>st0. (k, st0) \<in> set al \<and> (st = st0 \<or> st = f st0)"
  by (induction al) (auto split: if_splits)

lemma kill_stream_entries:
  assumes "(k, st) \<in> set (streams (kill_stream u s))"
  shows "k \<noteq> u \<and> (\<exists>st0. (k, st0) \<in> set (streams s) \<and> channels st = channels st0)"
proof (cases "u \<in> set (map fst (streams s))")
  case False
  with assms show ?thesis by (force simp: kill_stream_def)
next
  case True
  with assms have m: "(k, st) \<in> set (AList.map_entry u (\<lambda>st. st\<lparr>log_open := False\<rparr>)
        (AList.map_entry u (\<lambda>st. st\<lparr>running := False\<rparr>) (streams s)))" and ne: "k \<noteq> u"
    by (auto simp: kill_stream_def del_stream_def close_log_def disconnect_def AList.delete_eq)
  from map_entry_entries[OF m] obtain st1 where
    1: "(k, st1) \<in> set (AList.map_entry u (\<lambda>st. st\<lparr>running := False\<rparr>) (streams s))"
    and c1: "channels st = channels st1" by auto
  from map_entry_entries[OF 1] obtain st0 where
    "(k, st0) \<in> set (streams s)" "channels st1 = channels st0" by auto
  with c1 ne show ?thesis by auto
qed

lemma fold_kill_entries:
  "(k, st) \<in> set (streams (fold kill_stream us s)) \<Longrightarrow>
     k \<notin> set us \<and> (\<exists>st0. (k, st0) \<in> set (streams s) \<and> channels st = channels st0)"
proof (induction us arbitrary: s)
  case Nil
  then show ?case by auto
next
  case (Cons u us)
  from Cons.IH[of "kill_stream u s"] Cons.prems obtain st1 where
    a: "k \<notin> set us" and b: "(k, st1) \<in> set (streams (kill_stream u s))"
    and c: "channels st = channels st1" by auto
  from kill_stream_entries[OF b] a c show ?case by auto
qed

lemma update_entries: "(k, st) \<in> set (AList.update u v al) \<Longrightarrow> (k, st) = (u, v) \<or> (k, st) \<in> set al"
  by (induction al) (auto split: if_splits)

lemma connect_entries:
  assumes "(k, st) \<in> set (streams (connect up (u, as) s))"
  shows "(\<exists>st0. (k, st0) \<in> set (streams s) \<and> channels st = channels st0) \<or> channels st = as"
proof (cases "authenticate_raises up u")
  case (Some e)
  with assms show ?thesis by (auto simp: connect_def sleep_def alert_def)
next
  case None
  have asg: "(k, x) \<in> set (streams (assign_stream u (new_stream u as) s)) \<Longrightarrow>
      (k, x) \<in> set (streams s) \<or> channels x = as" for x
    using update_entries[of k x u "new_stream u as" "streams s"]
    by (auto simp: assign_stream_def new_stream_def)
  show ?thesis
  proof (cases "filter_raises up u")
    case (Some e)
    with None assms have "(k, st) \<in> set (streams (assign_stream u (new_stream u as) s))"
      by (simp add: connect_def sleep_def alert_def Let_def)
    from asg[OF this] show ?thesis by auto
  next
    case None': None
    with None assms have "(k, st) \<in> set (AList.map_entry u (\<lambda>st. st\<lparr>running := True, track := remdups (map query as)\<rparr>)
         (streams (assign_stream u (new_stream u as) s)))"
      by (simp add: connect_def sleep_def filter_stream_def Let_def)
    from map_entry_entries[OF this] obtain st1 where
      "(k, st1) \<in> set (streams (assign_stream u (new_stream u as) s))" "channels st = channels st1"
      by auto
    with asg[of st1] show ?thesis by auto
  qed
qed

lemma fold_connect_entries:
  "(k, st) \<in> set (streams (fold (connect up) gs s)) \<Longrightarrow>
     (\<exists>st0. (k, st0) \<in> set (streams s) \<and> channels st = channels st0)
     \<or> (\<exists>g \<in> set gs. channels st = snd g)"
proof (induction gs arbitrary: s)
  case Nil
  then show ?case by auto
next
  case (Cons g gs)
  obtain u as where g: "g = (u, as)" by (cases g)
  from Cons.IH[of "connect up g s"] Cons.prems
  consider st1 where "(k, st1) \<in> set (streams (connect up g s))" "channels st = channels st1"
    | h where "h \<in> set gs" "channels st = snd h" by auto
  then show ?case
  proof cases
    case 1
    from connect_entries[OF 1(1)[unfolded g]] 1(2) show ?thesis by (auto simp: g)
  next
    case 2
    then show ?thesis by auto
  qed
qed

lemma group_step_values:
  "list_all (\<lambda>(u, as). set as \<subseteq> X) g \<Longrightarrow> a \<in> X \<Longrightarrow>
     list_all (\<lambda>(u, as). set as \<subseteq> X) (group_step ua a g)"
proof -
  assume g: "list_all (\<lambda>(u, as). set as \<subseteq> X) g" and a: "a \<in> X"
  have old: "set (case map_of g (uid (user a)) of None \<Rightarrow> [] | Some as \<Rightarrow> as) \<subseteq> X"
  proof (cases "map_of g (uid (user a))")
    case None
    then show ?thesis by simp
  next
    case (Some as)
    then have "(uid (user a), as) \<in> set g" by (rule map_of_SomeD)
    with g Some show ?thesis by (auto simp: list_all_iff)
  qed
  have upd: "list_all (\<lambda>(u, as). set as \<subseteq> X) (AList.update k v g)" if "set v \<subseteq> X" for k v
    using g that update_entries[of _ _ k v g] by (fastforce simp: list_all_iff)
  show ?thesis using g old a by (simp add: group_step_def upd)
qed

lemma fold_group_step_values:
  "list_all (\<lambda>(u, as). set as \<subseteq> X) g \<Longrightarrow> set tr \<subseteq> X \<Longrightarrow>
     list_all (\<lambda>(u, as). set as \<subseteq> X) (fold (group_step ua) tr g)"
proof (induction tr arbitrary: g)
  case Nil
  then show ?case by simp
next
  case (Cons a tr)
  from Cons.prems have "a \<in> X" "set tr \<subseteq> X" by auto
  from Cons.IH[OF group_step_values[OF Cons.prems(1) this(1)] this(2)] show ?case by simp
qed

lemma regroup_values: "list_all (\<lambda>(u, as). set as \<subseteq> set tr) (regroup ua tr)"
  using fold_group_step_values[of "set tr" "[]" tr ua] by (simp add: regroup_def)


lemma kill_stream_frame [simp]:
  "db (kill_stream u s) = db s" "tracking (kill_stream u s) = tracking s"
  by (simp_all add: kill_stream_def del_stream_def close_log_def disconnect_def)

lemma fold_kill_frame [simp]:
  "db (fold kill_stream us s) = db s" "tracking (fold kill_stream us s) = tracking s"
  by (induction us arbitrary: s) simp_all

lemma connect_frame [simp]:
  "db (connect up g s) = db s" "tracking (connect up g s) = tracking s"
  by (simp_all add: connect_def sleep_def alert_def assign_stream_def filter_stream_def Let_def
      split: prod.splits option.splits)

lemma fold_connect_frame [simp]:
  "db (fold (connect up) gs s) = db s" "tracking (fold (connect up) gs s) = tracking s"
  by (induction gs arbitrary: s) simp_all

lemma only_row:
  "distinct (map pk rows) \<Longrightarrow> a \<in> set rows \<Longrightarrow> r \<in> set rows \<Longrightarrow> pk r = pk a \<Longrightarrow> r = a"
  by (meson distinct_map inj_onD)

lemma adjust_connections_stops:
  assumes c: "consistent s" and a: "a \<in> set (db s)"
    and nts: "pk a \<notin> pk ` set ts"
    and own: "pk a \<in> pk ` set tp \<Longrightarrow> uid (user a) \<in> set (map (\<lambda>x. uid (user x)) (ts @ tp))"
    and nr: "pk a \<notin> pk ` set tp \<Longrightarrow> \<not> is_running a"
  shows "stopped_after (pk a) (adjust_connections up ts tp s)"
proof -
  define ua where "ua = map (\<lambda>x. uid (user x)) (ts @ tp)"
  define s1 where "s1 = fold kill_stream ua s"
  define s2 where "s2 = fold stop_tracking tp s1"
  define s3 where "s3 = fold start_tracking ts s2"
  define gs where "gs = regroup ua (tracking s3)"
  have res: "adjust_connections up ts tp s = fold (connect up) gs s3"
    by (simp add: adjust_connections_def Let_def ua_def s1_def s2_def s3_def gs_def)
  from c have ddb: "distinct (map pk (db s))" and dtr: "distinct (map pk (tracking s))"
    and inv3: "\<And>t r. t \<in> set (tracking s) \<Longrightarrow> r \<in> set (db s) \<Longrightarrow> pk r = pk t \<Longrightarrow>
                  is_running r \<and> uid (user r) = uid (user t)"
    and inv4: "\<And>k st x. (k, st) \<in> set (streams s) \<Longrightarrow> x \<in> set (channels st) \<Longrightarrow>
                  x \<in> set (tracking s) \<and> uid (user x) = k"
    by (auto simp: consistent_def list_all_iff)
  text \<open>the rows\<close>
  have rows2: "list_all (\<lambda>r. pk r = pk a \<longrightarrow> \<not> is_running r) (db s2)"
  proof (cases "pk a \<in> pk ` set tp")
    case True
    then show ?thesis unfolding s2_def by (rule rows_fold_stop)
  next
    case False
    have "list_all (\<lambda>r. pk r = pk a \<longrightarrow> \<not> is_running r) (db s)"
      unfolding list_all_iff using only_row[OF ddb a] nr[OF False] by blast
    then have "list_all (\<lambda>r. pk r = pk a \<longrightarrow> \<not> is_running r) (db s1)" by (simp add: s1_def)
    then show ?thesis unfolding s2_def by (rule rows_fold_stop_keeps)
  qed
  have rows: "list_all (\<lambda>r. pk r = pk a \<longrightarrow> \<not> is_running r) (db (fold (connect up) gs s3))"
    using rows2 rows_fold_start[OF nts, of s2] by (simp add: s3_def)
  text \<open>the tracked set\<close>
  have untracked0: "pk a \<notin> pk ` set tp \<Longrightarrow> pk a \<notin> pk ` set (tracking s)"
  proof
    assume f: "pk a \<notin> pk ` set tp" and "pk a \<in> pk ` set (tracking s)"
    then obtain t where "t \<in> set (tracking s)" "pk a = pk t" by auto
    from inv3[OF this(1) a this(2)] nr[OF f] show False by simp
  qed
  have "distinct (map pk (tracking s1))" using dtr by (simp add: s1_def)
  from pks_fold_stop[OF this, of tp]
  have "pk ` set (tracking s2) = pk ` set (tracking s) - pk ` set tp"
    by (simp add: s2_def s1_def)
  then have tr3: "pk ` set (tracking s3) = (pk ` set (tracking s) - pk ` set tp) \<union> pk ` set ts"
    using pks_fold_start[of ts s2] by (simp add: s3_def)
  have untracked: "pk a \<notin> pk ` set (tracking s3)"
    using tr3 nts untracked0 by blast
  text \<open>the channels\<close>
  have chans: "pk a \<notin> pk ` set (channels st)" if m: "(k, st) \<in> set (streams (fold (connect up) gs s3))" for k st
  proof -
    from fold_connect_entries[OF m]
    consider st0 where "(k, st0) \<in> set (streams s3)" "channels st = channels st0"
      | g where "g \<in> set gs" "channels st = snd g" by auto
    then show ?thesis
    proof cases
      case 1
      then have "(k, st0) \<in> set (streams s1)" by (simp add: s3_def s2_def)
      from fold_kill_entries[OF this[unfolded s1_def]] obtain st00 where
        k: "k \<notin> set ua" and e: "(k, st00) \<in> set (streams s)" and ch: "channels st0 = channels st00"
        by auto
      show ?thesis
      proof
        assume "pk a \<in> pk ` set (channels st)"
        then obtain x where x: "x \<in> set (channels st00)" "pk a = pk x" using 1(2) ch by auto
        from inv4[OF e x(1)] have xt: "x \<in> set (tracking s)" and xu: "uid (user x) = k" by simp_all
        from inv3[OF xt a x(2)] have run: "is_running a" and au: "uid (user a) = k" using xu by simp_all
        from run nr have "pk a \<in> pk ` set tp" by blast
        from own[OF this] k au show False by (simp add: ua_def)
      qed
    next
      case 2
      obtain u as where g: "g = (u, as)" by (cases g)
      from regroup_values[of "tracking s3" ua] 2(1) have "set as \<subseteq> set (tracking s3)"
        by (auto simp: gs_def g list_all_iff)
      with untracked 2(2) show ?thesis by (auto simp: g)
    qed
  qed
  have "list_all (\<lambda>(k, st). pk a \<notin> pk ` set (channels st)) (streams (fold (connect up) gs s3))"
    unfolding list_all_iff using chans by blast
  with rows untracked show ?thesis
    unfolding stopped_after_def res by simp
qed


lemma regroup_untouched [simp]: "regroup [] tr = []"
proof -
  have "fold (group_step []) tr g = g" for g
    by (induction tr arbitrary: g) (simp_all add: group_step_def)
  then show ?thesis by (simp add: regroup_def)
qed

lemma adjust_connections_nothing [simp]: "adjust_connections up [] [] s = s"
  by (simp add: adjust_connections_def)

lemma consistent_cong:
  "db t = db s \<Longrightarrow> tracking t = tracking s \<Longrightarrow> streams t = streams s \<Longrightarrow> consistent t = consistent s"
  by (simp add: consistent_def)

lemma stopped_after_cong:
  "db t = db s \<Longrightarrow> tracking t = tracking s \<Longrightarrow> streams t = streams s \<Longrightarrow>
     stopped_after p t = stopped_after p s"
  by (simp add: stopped_after_def)

lemma get_archives_to_start_quiet:
  assumes "to_restart s = []"
  shows "set (fst (get_archives_to_start now s)) \<subseteq> {x \<in> set (db s). window_open now x}"
    and "db (snd (get_archives_to_start now s)) = db s"
    and "tracking (snd (get_archives_to_start now s)) = tracking s"
    and "streams (snd (get_archives_to_start now s)) = streams s"
proof -
  define r where "r = filter (\<lambda>a. started a \<le> now \<and> \<not> tracked a s) (db s)"
  have fp: "set (fst (first_pass_filter r s)) \<subseteq> set (db s)"
    "db (snd (first_pass_filter r s)) = db s" "tracking (snd (first_pass_filter r s)) = tracking s"
    "streams (snd (first_pass_filter r s)) = streams s"
    "to_restart (snd (first_pass_filter r s)) = []"
    using assms by (auto simp: first_pass_filter_def r_def to_restart_def)
  have g: "get_archives_to_start now s =
      (filter (\<lambda>a. status (user a) \<noteq> STATUS_DISABLED) (filter (window_open now) (fst (first_pass_filter r s))),
       snd (first_pass_filter r s))"
    by (simp add: get_archives_to_start_def Let_def case_prod_beta r_def[symmetric] handle_restarts_def fp(5))
  show "set (fst (get_archives_to_start now s)) \<subseteq> {x \<in> set (db s). window_open now x}"
    using fp(1) by (auto simp: g)
  show "db (snd (get_archives_to_start now s)) = db s" by (simp add: g fp)
  show "tracking (snd (get_archives_to_start now s)) = tracking s" by (simp add: g fp)
  show "streams (snd (get_archives_to_start now s)) = streams s" by (simp add: g fp)
qed

lemma consistent_init: "distinct (map pk rows) \<Longrightarrow> consistent (init rows)"
  by (simp add: consistent_def init_def)

lemma expired_not_open: "expired now a \<Longrightarrow> \<not> window_open now a"
  by (simp add: expired_def window_open_def split: option.splits)

lemma expired_archive_stopped_off_the_restart_path:
  assumes c: "consistent s" and quiet: "to_restart s = []"
    and a: "a \<in> set (db s)" and ex: "expired now a"
  shows "stopped_after (pk a) (loop_body up now s)"
proof -
  define ts where "ts = fst (get_archives_to_start now s)"
  define s1 where "s1 = snd (get_archives_to_start now s)"
  define tp where "tp = filter (\<lambda>a. expired now a \<and> is_running a) (db s1)"
  note q = get_archives_to_start_quiet[OF quiet, of now, folded ts_def s1_def]
  have c1: "consistent s1" using c consistent_cong[OF q(2,3,4)] by simp
  have a1: "a \<in> set (db s1)" using a q(2) by simp
  have ddb: "distinct (map pk (db s))" using c by (simp add: consistent_def)
  have nts: "pk a \<notin> pk ` set ts"
  proof
    assume "pk a \<in> pk ` set ts"
    then obtain x where x: "x \<in> set ts" "pk x = pk a" by auto
    with q(1) have "x \<in> set (db s)" "window_open now x" by auto
    with only_row[OF ddb a this(1) x(2)] expired_not_open[OF ex] show False by simp
  qed
  have mem: "pk a \<in> pk ` set tp \<longleftrightarrow> is_running a"
  proof
    assume "pk a \<in> pk ` set tp"
    then obtain x where x: "x \<in> set tp" "pk x = pk a" by auto
    then have "x \<in> set (db s)" "is_running x" by (simp_all add: tp_def q(2))
    with only_row[OF ddb a this(1) x(2)] show "is_running a" by simp
  next
    assume "is_running a"
    with a ex have "a \<in> set tp" by (simp add: tp_def q(2))
    then show "pk a \<in> pk ` set tp" by (rule imageI)
  qed
  have own: "pk a \<in> pk ` set tp \<Longrightarrow> uid (user a) \<in> set (map (\<lambda>x. uid (user x)) (ts @ tp))"
  proof -
    assume "pk a \<in> pk ` set tp"
    with mem a ex have "a \<in> set tp" by (simp add: tp_def q(2))
    then show ?thesis by auto
  qed
  have nr: "pk a \<notin> pk ` set tp \<Longrightarrow> \<not> is_running a" using mem by simp
  have adj: "stopped_after (pk a) (adjust_connections up ts tp s1)"
    by (rule adjust_connections_stops[OF c1 a1 nts own nr])
  have idle: "stopped_after (pk a) s1" if "ts = []" "tp = []"
    using adj that by simp
  have lb: "loop_body up now s =
      sleep LOOP_TIME (if truthy ts \<or> truthy tp then adjust_connections up ts tp s1 else s1)"
    by (simp add: loop_body_def Let_def case_prod_beta ts_def s1_def tp_def)
  have "stopped_after (pk a) (if truthy ts \<or> truthy tp then adjust_connections up ts tp s1 else s1)"
    using adj idle by (simp add: truthy_def)
  then show ?thesis
    unfolding lb using stopped_after_cong[of "sleep LOOP_TIME _" _ "pk a"] by (simp add: sleep_def)
qed

section \<open>Properties of the consumer\<close>

lemma seq_None: "f s = (s1, None) \<Longrightarrow> seq f g s = g s1"
  by (simp add: seq_def)

lemma seq_Some: "f s = (s1, Some e) \<Longrightarrow> seq f g s = (s1, Some e)"
  by (simp add: seq_def)

lemma parse_line_skip: "loads sv l = None \<Longrightarrow> parse_line sv l w = (w, None)"
  by (simp add: parse_line_def)

lemma parse_line_replayed:
  assumes "loads sv l = Some t" "is_object t"
    "list_all (\<lambda>p. collect_raises sv p t = None) [Map, Cloud, Images, Statistics, Search]"
  shows "parse_line sv l w = (replayed t w, None)"
proof -
  obtain kv where t: "t = JObject kv" using assms(2) by (cases t) simp_all
  show ?thesis using assms(1,3)
    by (simp add: parse_line_def seq_def collect_map_def collect_cloud_def collect_images_def
    collect_stats_def collect_search_def collect_def collect_statistics_def t replayed_def)
qed

lemma should_stop_replayed [simp]: "should_stop (replayed t w) = should_stop w"
  by (simp add: replayed_def)

lemma should_stop_fold_replayed [simp]: "should_stop (fold replayed ts w) = should_stop w"
  by (induction ts arbitrary: w) simp_all

lemma compile_loop_replayable:
  "\<not> should_stop w \<Longrightarrow> list_all (replayable sv) lines \<Longrightarrow>
     compile_loop sv lines w = (fold replayed (List.map_filter (loads sv) lines) w, Exhausted)"
proof (induction lines arbitrary: w)
  case Nil
  then show ?case by (simp add: List.map_filter_simps)
next
  case (Cons l ls)
  show ?case
  proof (cases "loads sv l")
    case None
    with Cons show ?thesis by (simp add: parse_line_skip List.map_filter_simps)
  next
    case (Some t)
    with Cons.prems have "is_object t"
      "list_all (\<lambda>p. collect_raises sv p t = None) [Map, Cloud, Images, Statistics, Search]"
      by (simp_all add: replayable_def)
    from parse_line_replayed[OF Some this] have pl: "parse_line sv l w = (replayed t w, None)" .
    have "\<not> should_stop (replayed t w)" using Cons.prems by simp
    from Cons.IH[OF this] Cons.prems Some pl show ?thesis by (simp add: List.map_filter_simps)
  qed
qed

lemma fold_replayed:
  "collected (map_p (fold replayed ts w)) = collected (map_p w) @ ts"
  "collected (cloud (fold replayed ts w)) = collected (cloud w) @ ts"
  "collected (images (fold replayed ts w)) = collected (images w) @ ts"
  "collected (statistics (fold replayed ts w)) = collected (statistics w) @ ts"
  "aggregate_total (statistics (fold replayed ts w)) = aggregate_total (statistics w) + int (length ts)"
  "collected (search (fold replayed ts w)) =
     (if allow_search (archive w) then collected (search w) @ ts else collected (search w))"
  "raw (fold replayed ts w) = raw w"
  "archive (fold replayed ts w) = archive w"
  by (induction ts arbitrary: w; simp add: replayed_def)+

lemma should_stop_set_archive [simp]: "should_stop (set_archive f w) = should_stop w"
  by (simp add: set_archive_def)

lemma compile_aggregates_replayable:
  assumes "\<not> should_stop w" "list_all (replayable sv) lines"
  shows "compile_aggregates sv lines w =
     (set_archive (\<lambda>a. a\<lparr>total_a := aggregate_total (statistics w) + int (length (List.map_filter (loads sv) lines))\<rparr>)
        (fold replayed (List.map_filter (loads sv) lines) (set_archive (\<lambda>a. a\<lparr>total_a := 0\<rparr>) w)), None)"
proof -
  have "\<not> should_stop (set_archive (\<lambda>a. a\<lparr>total_a := 0\<rparr>) w)" using assms(1) by simp
  from compile_loop_replayable[OF this assms(2)] show ?thesis
    by (simp add: compile_aggregates_def fold_replayed set_archive_def)
qed


lemma write_distillations_ok:
  "list_all (\<lambda>p. generate_raises sv p = None) [Raw, Map, Cloud, Statistics, Images] \<Longrightarrow>
     write_distillations sv now w = (flushed sv now w, None)"
  by (simp add: write_distillations_def seq_def generate_only_def generate_into_def generate_def
      set_archive_def flushed_def distilled_def)

lemma process_message_collected:
  assumes "list_all (\<lambda>p. collect_raises sv p t = None) (collecting w)"
  shows "process_message sv now fnow t (w, m) =
     (if now - last_distilled w > DISTILLATION_WINDOW
      then (case write_distillations sv fnow (received t w) of (w1, r) \<Rightarrow> ((w1, m\<lparr>acked := True\<rparr>), r))
      else ((received t w, m\<lparr>acked := True\<rparr>), None))"
  using assms
  by (cases "allow_search (archive w)")
     (simp_all add: process_message_def seq_def on_consumer_def collect_raw_def collect_cloud_def
      collect_images_def collect_stats_def collect_map_def collect_search_def collect_def
      collect_statistics_def ack_def set_archive_def received_def collecting_def)

lemma process_message_quiet:
  assumes "list_all (\<lambda>p. collect_raises sv p t = None) (collecting w)"
    and "list_all (\<lambda>p. generate_raises sv p = None) [Raw, Map, Cloud, Statistics, Images]"
  shows "process_message sv now fnow t (w, m) =
     ((if now - last_distilled w > DISTILLATION_WINDOW
       then flushed sv fnow (received t w) else received t w, m\<lparr>acked := True\<rparr>), None)"
  by (simp add: process_message_collected[OF assms(1)] write_distillations_ok[OF assms(2)])

lemma received_facts [simp]:
  "aggregate_total (statistics (received t w)) = aggregate_total (statistics w) + 1"
  "total_a (archive (received t w)) = total_a (archive w) + 1"
  "allow_search (archive (received t w)) = allow_search (archive w)"
  by (simp_all add: received_def)

lemma flushed_facts [simp]:
  "aggregate_total (statistics (flushed sv now w)) = aggregate_total (statistics w)"
  "total_a (archive (flushed sv now w)) = aggregate_total (statistics w)"
  "allow_search (archive (flushed sv now w)) = allow_search (archive w)"
  by (simp_all add: flushed_def distilled_def)

lemma collecting_cong: "allow_search (archive w') = allow_search (archive w) \<Longrightarrow> collecting w' = collecting w"
  by (simp add: collecting_def)

lemma process_all_quiet:
  assumes g: "list_all (\<lambda>p. generate_raises sv p = None) [Raw, Map, Cloud, Statistics, Images]"
  shows "list_all (\<lambda>d. list_all (\<lambda>p. collect_raises sv p (snd d) = None) (collecting w)) ds \<Longrightarrow>
     snd (process_all sv ds w) = None
     \<and> aggregate_total (statistics (fst (process_all sv ds w))) = aggregate_total (statistics w) + int (length ds)
     \<and> (total_a (archive w) = aggregate_total (statistics w) \<longrightarrow>
          total_a (archive (fst (process_all sv ds w))) = aggregate_total (statistics w) + int (length ds))"
proof (induction ds arbitrary: w)
  case Nil
  then show ?case by simp
next
  case (Cons d ds)
  define w1 where "w1 = (if fst (fst d) - last_distilled w > DISTILLATION_WINDOW
       then flushed sv (snd (fst d)) (received (snd d) w) else received (snd d) w)"
  have c: "list_all (\<lambda>p. collect_raises sv p (snd d) = None) (collecting w)"
    using Cons.prems by simp
  have pm: "process_message sv (fst (fst d)) (snd (fst d)) (snd d) (w, \<lparr>acked = False\<rparr>) = ((w1, \<lparr>acked = True\<rparr>), None)"
    by (simp add: process_message_quiet[OF c g] w1_def)
  have col: "collecting w1 = collecting w"
    by (rule collecting_cong) (simp add: w1_def)
  have st: "aggregate_total (statistics w1) = aggregate_total (statistics w) + 1"
    by (simp add: w1_def)
  have tot: "total_a (archive w) = aggregate_total (statistics w) \<Longrightarrow> total_a (archive w1) = aggregate_total (statistics w1)"
    by (simp add: w1_def)
  have "list_all (\<lambda>d. list_all (\<lambda>p. collect_raises sv p (snd d) = None) (collecting w1)) ds"
    using Cons.prems by (simp add: col)
  from Cons.IH[OF this] pm st tot show ?case by simp
qed

lemma process_message_raises:
  assumes "\<not> list_all (\<lambda>p. collect_raises sv p t = None) (collecting w)"
  shows "\<exists>e w1. process_message sv now fnow t (w, m) = ((w1, m), Some e)
           \<and> total_a (archive w1) = total_a (archive w) + 1
           \<and> reported w1 = reported w \<and> waited w1 = waited w \<and> should_stop w1 = should_stop w"
  using assms
  by (cases "allow_search (archive w)")
     (auto simp add: process_message_def seq_def on_consumer_def collect_raw_def collect_cloud_def
      collect_images_def collect_stats_def collect_map_def collect_search_def collect_def
      collect_statistics_def ack_def set_archive_def collecting_def split: option.splits)

lemma write_distillations_frame:
  "reported (fst (write_distillations sv now w)) = reported w
   \<and> waited (fst (write_distillations sv now w)) = waited w
   \<and> should_stop (fst (write_distillations sv now w)) = should_stop w"
  by (simp add: write_distillations_def seq_def generate_only_def generate_into_def generate_def
      set_archive_def split: option.splits)

lemma received_frame [simp]:
  "reported (received t w) = reported w" "waited (received t w) = waited w"
  "should_stop (received t w) = should_stop w" "last_distilled (received t w) = last_distilled w"
  by (simp_all add: received_def)

lemma process_message_frame:
  "reported (fst (fst (process_message sv now fnow t (w, m)))) = reported w
   \<and> waited (fst (fst (process_message sv now fnow t (w, m)))) = waited w"
proof (cases "list_all (\<lambda>p. collect_raises sv p t = None) (collecting w)")
  case True
  show ?thesis
    using write_distillations_frame[of sv fnow "received t w"]
    by (simp add: process_message_collected[OF True] case_prod_beta)
next
  case False
  from process_message_raises[OF False, of now fnow m] show ?thesis by auto
qed

lemma process_message_acked:
  "acked (snd (fst (process_message sv now fnow t (w, m)))) =
     (acked m \<or> list_all (\<lambda>p. collect_raises sv p t = None) (collecting w))"
proof (cases "list_all (\<lambda>p. collect_raises sv p t = None) (collecting w)")
  case True
  show ?thesis
    by (simp add: process_message_collected[OF True] True case_prod_beta)
next
  case False
  from process_message_raises[OF False, of now fnow m] show ?thesis using False by auto
qed


lemma map_filter_all_Some: "map f xs = map Some ys \<Longrightarrow> List.map_filter f xs = ys"
proof (induction xs arbitrary: ys)
  case Nil
  then show ?case by (simp add: List.map_filter_simps)
next
  case (Cons x xs)
  then obtain y ys' where "ys = y # ys'" "f x = Some y" "map f xs = map Some ys'"
    by (cases ys) auto
  with Cons.IH[of ys'] show ?case by (simp add: List.map_filter_simps)
qed

lemma replayable_all_Some:
  "map (loads sv) lines = map Some ts \<Longrightarrow> list_all is_object ts \<Longrightarrow>
   list_all (\<lambda>t. list_all (\<lambda>p. collect_raises sv p t = None) [Map, Cloud, Images, Statistics, Search]) ts \<Longrightarrow>
     list_all (replayable sv) lines"
proof (induction lines arbitrary: ts)
  case Nil
  then show ?case by simp
next
  case (Cons l ls)
  then obtain t ts' where ts: "ts = t # ts'" "loads sv l = Some t" "map (loads sv) ls = map Some ts'"
    by (cases ts) auto
  with Cons.prems have "replayable sv l" by (simp add: replayable_def)
  moreover have "list_all (replayable sv) ls"
    using Cons.IH[OF ts(3)] Cons.prems(2,3) ts(1) by simp
  ultimately show ?case by simp
qed


lemma collecting_subset:
  "list_all (\<lambda>p. collect_raises sv p t = None) [Raw, Cloud, Images, Statistics, Map, Search] \<Longrightarrow>
     list_all (\<lambda>p. collect_raises sv p t = None) (collecting w)"
  by (simp add: collecting_def)

lemma quiet_deliveries:
  assumes "list_all (\<lambda>t. list_all (\<lambda>p. collect_raises sv p t = None)
                   [Raw, Cloud, Images, Statistics, Map, Search]) ts"
  shows "list_all (\<lambda>d. list_all (\<lambda>p. collect_raises sv p (snd d) = None) (collecting w)) (zip cs ts)"
  unfolding list_all_iff
proof
  fix d assume "d \<in> set (zip cs ts)"
  then have "snd d \<in> set ts" using set_zip_rightD[of "fst d" "snd d" cs ts] by simp
  with assms have "list_all (\<lambda>p. collect_raises sv p (snd d) = None)
                   [Raw, Cloud, Images, Statistics, Map, Search]"
    unfolding list_all_iff by blast
  then have "list_all (\<lambda>p. collect_raises sv p (snd d) = None) (collecting w)"
    by (rule collecting_subset)
  then show "\<forall>p\<in>set (collecting w). collect_raises sv p (snd d) = None"
    unfolding list_all_iff .
qed

lemma quiet_replay:
  assumes "list_all (\<lambda>t. list_all (\<lambda>p. collect_raises sv p t = None)
                   [Raw, Cloud, Images, Statistics, Map, Search]) ts"
  shows "list_all (\<lambda>t. list_all (\<lambda>p. collect_raises sv p t = None) [Map, Cloud, Images, Statistics, Search]) ts"
  using assms by (induction ts) simp_all






text \<open>
  Claim C6. For a log whose lines decode to the objects \<open>ts\<close>, with no aggregator
  raising on them, replaying the log and processing \<open>ts\<close> one at a time through
  \<open>_process_message\<close> (at any clock readings) both finish without an exception and
  leave the same statistics count, the count before plus the number of records. When
  the archive total agreed with the statistics count beforehand, as it does after any
  completed replay, the archive totals agree afterwards as well.
\<close>

theorem replay_total_matches_live:
  assumes lines: "map (loads sv) lines = map Some ts" and objs: "list_all is_object ts"
    and quiet: "list_all (\<lambda>t. list_all (\<lambda>p. collect_raises sv p t = None)
                   [Raw, Cloud, Images, Statistics, Map, Search]) ts"
    and gen: "list_all (\<lambda>p. generate_raises sv p = None) [Raw, Map, Cloud, Statistics, Images]"
    and run: "\<not> should_stop w" and clock: "length cs = length ts"
  shows "snd (compile_aggregates sv lines w) = None
    \<and> snd (process_all sv (zip cs ts) w) = None
    \<and> aggregate_total (statistics (fst (compile_aggregates sv lines w)))
         = aggregate_total (statistics (fst (process_all sv (zip cs ts) w)))
    \<and> aggregate_total (statistics (fst (compile_aggregates sv lines w)))
         = aggregate_total (statistics w) + int (length lines)
    \<and> (total_a (archive w) = aggregate_total (statistics w) \<longrightarrow>
         total_a (archive (fst (compile_aggregates sv lines w)))
           = total_a (archive (fst (process_all sv (zip cs ts) w))))"
proof -
  have r: "list_all (replayable sv) lines"
    by (rule replayable_all_Some[OF lines objs quiet_replay[OF quiet]])
  have good: "List.map_filter (loads sv) lines = ts"
    by (rule map_filter_all_Some[OF lines])
  have len: "length lines = length ts"
    using lines by (rule map_eq_imp_length_eq)
  have lz: "length (zip cs ts) = length ts"
    using clock by simp
  note live = process_all_quiet[OF gen quiet_deliveries[OF quiet, of w cs], unfolded lz]
  have rep: "snd (compile_aggregates sv lines w) = None"
    "aggregate_total (statistics (fst (compile_aggregates sv lines w))) = aggregate_total (statistics w) + int (length ts)"
    "total_a (archive (fst (compile_aggregates sv lines w))) = aggregate_total (statistics w) + int (length ts)"
    by (simp_all add: compile_aggregates_replayable[OF run r] good fold_replayed set_archive_def)
  show ?thesis
    using live rep by (simp only: len) simp
qed

theorem replay_total_matches_live_witness:
  "aggregate_total (statistics (fst (compile_aggregates calm [''{}'', ''{}'', ''{}''] fresh))) = 3
   \<and> aggregate_total (statistics (fst (process_all calm
        (zip [(1, 1), (2, 2), (400, 401)] [JObject [], JObject [], JObject []]) fresh))) = 3
   \<and> total_a (archive (fst (compile_aggregates calm [''{}'', ''{}'', ''{}''] fresh)))
       = total_a (archive (fst (process_all calm
        (zip [(1, 1), (2, 2), (400, 401)] [JObject [], JObject [], JObject []]) fresh)))"
proof -
  have h: "map (loads calm) [''{}'', ''{}'', ''{}''] = map Some [JObject [], JObject [], JObject []]
     \<and> list_all is_object [JObject [], JObject [], JObject []]
     \<and> list_all (\<lambda>t. list_all (\<lambda>p. collect_raises calm p t = None)
                   [Raw, Cloud, Images, Statistics, Map, Search]) [JObject [], JObject [], JObject []]
     \<and> list_all (\<lambda>p. generate_raises calm p = None) [Raw, Map, Cloud, Statistics, Images]
     \<and> \<not> should_stop fresh
     \<and> total_a (archive fresh) = aggregate_total (statistics fresh)
     \<and> aggregate_total (statistics fresh) = 0"
    by code_simp
  show ?thesis
    using replay_total_matches_live[of calm "[''{}'', ''{}'', ''{}'']" "[JObject [], JObject [], JObject []]" fresh
        "[(1, 1), (2, 2), (400, 401)]"] h
    by simp
qed

text \<open>
  Claim C8, as the program has it. No exception leaves \<open>callback\<close>. When
  \<open>_process_message\<close> raises, the failure is reported, one second is slept and
  \<open>should_stop\<close> is set. The message is left as it was when an aggregator's
  \<open>collect\<close> raised; when every \<open>collect\<close> went through, the exception came after
  \<open>message.ack()\<close> and the message is acknowledged.
\<close>

theorem callback_contains_every_failure:
  "snd (callback sv now fnow t (w, m)) = None
   \<and> (snd (process_message sv now fnow t (w, m)) = Some e \<longrightarrow>
        should_stop (fst (fst (callback sv now fnow t (w, m))))
        \<and> reported (fst (fst (callback sv now fnow t (w, m)))) =
            reported w @ [(''An error occurred whilst processing a message'', e)]
        \<and> waited (fst (fst (callback sv now fnow t (w, m)))) = waited w + 1
        \<and> acked (snd (fst (callback sv now fnow t (w, m)))) =
            (acked m \<or> list_all (\<lambda>p. collect_raises sv p t = None) (collecting w)))"
  using process_message_frame[of sv now fnow t w m] process_message_acked[of sv now fnow t w m]
  by (auto simp: callback_def split: prod.splits option.splits)

text \<open>
  Claim C8 as stated fails: when the flush that follows the acknowledgement raises,
  processing has raised and the message, unacknowledged before, is acknowledged.
\<close>

theorem flush_failure_leaves_message_acked:
  "snd (process_message flush_fails 1000 1000 (JObject []) (fresh, unacked)) = Some (OtherError ''no space'')
   \<and> snd (callback flush_fails 1000 1000 (JObject []) (fresh, unacked)) = None
   \<and> should_stop (fst (fst (callback flush_fails 1000 1000 (JObject []) (fresh, unacked))))
   \<and> \<not> acked unacked
   \<and> acked (snd (fst (callback flush_fails 1000 1000 (JObject []) (fresh, unacked))))"
  by code_simp

theorem callback_contains_every_failure_witness:
  "snd (process_message cloud_fails 1 1 (JObject []) (fresh, unacked)) = Some (OtherError ''boom'')
   \<and> snd (callback cloud_fails 1 1 (JObject []) (fresh, unacked)) = None
   \<and> should_stop (fst (fst (callback cloud_fails 1 1 (JObject []) (fresh, unacked))))
   \<and> reported (fst (fst (callback cloud_fails 1 1 (JObject []) (fresh, unacked))))
       = [(''An error occurred whilst processing a message'', OtherError ''boom'')]
   \<and> waited (fst (fst (callback cloud_fails 1 1 (JObject []) (fresh, unacked)))) = 1
   \<and> \<not> acked (snd (fst (callback cloud_fails 1 1 (JObject []) (fresh, unacked))))"
proof -
  have h: "snd (process_message cloud_fails 1 1 (JObject []) (fresh, unacked)) = Some (OtherError ''boom'')"
    by code_simp
  have g: "reported fresh = [] \<and> waited fresh = 0 \<and> \<not> acked unacked
     \<and> \<not> list_all (\<lambda>p. collect_raises cloud_fails p (JObject []) = None) (collecting fresh)"
    by code_simp
  show ?thesis
    using callback_contains_every_failure[of cloud_fails 1 1 "JObject []" fresh unacked "OtherError ''boom''"] h g by simp
qed

text \<open>
  Claim C9. When an aggregator that \<open>_process_message\<close> feeds raises on the record,
  the archive total has already been incremented and the message is as it was, also after
  \<open>callback\<close> has handled the exception.
\<close>

theorem total_counted_before_failure:
  assumes "\<not> list_all (\<lambda>p. collect_raises sv p t = None) (collecting w)"
  shows "snd (process_message sv now fnow t (w, m)) \<noteq> None
    \<and> total_a (archive (fst (fst (process_message sv now fnow t (w, m))))) = total_a (archive w) + 1
    \<and> acked (snd (fst (process_message sv now fnow t (w, m)))) = acked m
    \<and> snd (callback sv now fnow t (w, m)) = None
    \<and> total_a (archive (fst (fst (callback sv now fnow t (w, m))))) = total_a (archive w) + 1
    \<and> acked (snd (fst (callback sv now fnow t (w, m)))) = acked m
    \<and> should_stop (fst (fst (callback sv now fnow t (w, m))))"
proof -
  from process_message_raises[OF assms, of now fnow m] obtain e w1 where
    pm: "process_message sv now fnow t (w, m) = ((w1, m), Some e)"
    and tot: "total_a (archive w1) = total_a (archive w) + 1" by blast
  show ?thesis by (simp add: pm tot callback_def)
qed

theorem total_counted_before_failure_witness:
  "collect_raises statistics_fails Statistics (JObject []) = Some (OtherError ''bang'')
   \<and> snd (process_message statistics_fails 1 1 (JObject []) (fresh, unacked)) \<noteq> None
   \<and> total_a (archive fresh) = 0
   \<and> total_a (archive (fst (fst (process_message statistics_fails 1 1 (JObject []) (fresh, unacked))))) = 1
   \<and> \<not> acked (snd (fst (process_message statistics_fails 1 1 (JObject []) (fresh, unacked))))
   \<and> total_a (archive (fst (fst (callback statistics_fails 1 1 (JObject []) (fresh, unacked))))) = 1
   \<and> \<not> acked (snd (fst (callback statistics_fails 1 1 (JObject []) (fresh, unacked))))"
proof -
  have h: "\<not> list_all (\<lambda>p. collect_raises statistics_fails p (JObject []) = None) (collecting fresh)"
    by code_simp
  have g: "collect_raises statistics_fails Statistics (JObject []) = Some (OtherError ''bang'')
     \<and> total_a (archive fresh) = 0 \<and> \<not> acked unacked"
    by code_simp
  show ?thesis
    using total_counted_before_failure[OF h, of 1 1 unacked] g by simp
qed

end
